theory Spec2Isabelle
  imports Main "HOL-Library.Sublist"
begin

section \<open>Go strings\<close>

text \<open>
  A Go string is a sequence of bytes, so it is modelled as a \<open>char list\<close>: one \<open>char\<close>
  per byte, text outside ASCII as its UTF-8 bytes. The functions of package \<open>strings\<close> that
  the two source files call are written out here with the results the Go library gives.
\<close>

definition nl :: char where
  "nl = CHR 0x0A"

definition HasPrefix :: "string \<Rightarrow> string \<Rightarrow> bool" where
  "HasPrefix s p = (take (length p) s = p)"

definition HasSuffix :: "string \<Rightarrow> string \<Rightarrow> bool" where
  "HasSuffix s p = (length p \<le> length s \<and> drop (length s - length p) s = p)"

definition TrimPrefix :: "string \<Rightarrow> string \<Rightarrow> string" where
  "TrimPrefix s p = (if HasPrefix s p then drop (length p) s else s)"

text \<open>
  \<open>strings.Split(s, sep)\<close> for a separator of one byte: the segments between the
  separators, always at least one segment; a string that ends in the separator has an empty
  last segment, and the empty string splits into one empty segment.
\<close>

fun Split :: "string \<Rightarrow> char \<Rightarrow> string list" where
  "Split [] sep = [[]]"
| "Split (c # cs) sep =
     (if c = sep then [] # Split cs sep
      else (case Split cs sep of [] \<Rightarrow> [[c]] | l # ls \<Rightarrow> (c # l) # ls))"

text \<open>\<open>strings.Join(elems, sep)\<close>.\<close>

fun Join :: "string list \<Rightarrow> string \<Rightarrow> string" where
  "Join [] sep = []"
| "Join [x] sep = x"
| "Join (x # y # ys) sep = x @ sep @ Join (y # ys) sep"

section \<open>The chunk callback of handleStream: splitting the buffer into lines\<close>

text \<open>
  The first half of the callback handed to \<open>SendStreamRequest\<close> (anthropic.go, lines
  315 to 326): the chunk is appended to the buffer, the buffer is split at every newline,
  and, when the buffer does not end in a newline, the last segment goes back into the buffer
  and leaves the list of lines. \<open>feed\<close> takes the buffer and the chunk and returns the lines
  handed to the loop over lines together with the new buffer.
\<close>

definition feed :: "string \<Rightarrow> string \<Rightarrow> string list \<times> string" where
  "feed buffer chunk =
     (let content = buffer @ chunk;
          lines = Split content nl
      in if \<not> HasSuffix content [nl] \<and> length lines > 0
         then (butlast lines, last lines)
         else (lines, []))"

text \<open>
  A run of the callback over the chunks of one response, from a given buffer: what each call
  returned (its lines and the buffer it left), in call order.
\<close>

fun feed_all :: "string \<Rightarrow> string list \<Rightarrow> (string list \<times> string) list" where
  "feed_all buffer [] = []"
| "feed_all buffer (chunk # chunks) =
     (let r = feed buffer chunk in r # feed_all (snd r) chunks)"

definition frames_of :: "string \<Rightarrow> string list \<Rightarrow> string list" where
  "frames_of buffer chunks = concat (map fst (feed_all buffer chunks))"

definition pending_of :: "string \<Rightarrow> string list \<Rightarrow> string" where
  "pending_of buffer chunks =
     (if chunks = [] then buffer else snd (last (feed_all buffer chunks)))"

text \<open>
  Reinserting the terminators: every line followed by a newline, then the pending buffer.
\<close>

definition reinsert :: "string list \<Rightarrow> string \<Rightarrow> string" where
  "reinsert lines pending = concat (map (\<lambda>l. l @ [nl]) lines) @ pending"

text \<open>
  The lines of one call that were closed by a newline of the input: when the call cleared
  the buffer, the last segment it returned is the empty segment after the final newline, which
  stands for no byte of the input.
\<close>

definition closed_lines :: "string list \<times> string \<Rightarrow> string list" where
  "closed_lines r = (if snd r = [] then butlast (fst r) else fst r)"

section \<open>Runes: package unicode/utf8 and the Unicode-aware functions of package strings\<close>

text \<open>
  \<open>strings.ToLower\<close> and \<open>strings.TrimSpace\<close> read a string as UTF-8. A rune (a code
  point) is a natural number here. \<open>DecodeRuneInString\<close> follows \<open>utf8.DecodeRuneInString\<close>:
  the rune at the head of the string and its width in bytes; a byte that starts no well-formed
  sequence decodes to \<open>RuneError\<close> with width 1.
\<close>

definition RuneError :: nat where
  "RuneError = 0xFFFD"

definition byte :: "char \<Rightarrow> nat" where
  "byte c = of_char c"

text \<open>
  The tables of the decoder, as functions of the first byte of a sequence (from 0xC2 to
  0xF4): the length of the sequence, and the range accepted for its second byte.
\<close>

definition seq_size :: "nat \<Rightarrow> nat" where
  "seq_size s0 = (if s0 < 0xE0 then 2 else if s0 < 0xF0 then 3 else 4)"

definition accept_lo :: "nat \<Rightarrow> nat" where
  "accept_lo s0 = (if s0 = 0xE0 then 0xA0 else if s0 = 0xF0 then 0x90 else 0x80)"

definition accept_hi :: "nat \<Rightarrow> nat" where
  "accept_hi s0 = (if s0 = 0xED then 0x9F else if s0 = 0xF4 then 0x8F else 0xBF)"

definition DecodeRuneInString :: "string \<Rightarrow> nat \<times> nat" where
  "DecodeRuneInString s =
     (if s = [] then (RuneError, 0)
      else let s0 = byte (s ! 0) in
        if s0 < 0x80 then (s0, 1)
        else if s0 < 0xC2 \<or> 0xF4 < s0 then (RuneError, 1)
        else
          let sz = seq_size s0
          in if length s < sz then (RuneError, 1)
             else let s1 = byte (s ! 1) in
               if s1 < accept_lo s0 \<or> accept_hi s0 < s1 then (RuneError, 1)
               else if sz \<le> 2 then ((s0 mod 0x20) * 0x40 + s1 mod 0x40, 2)
               else let s2 = byte (s ! 2) in
                 if s2 < 0x80 \<or> 0xBF < s2 then (RuneError, 1)
                 else if sz \<le> 3
                   then ((s0 mod 0x10) * 0x1000 + (s1 mod 0x40) * 0x40 + s2 mod 0x40, 3)
                 else let s3 = byte (s ! 3) in
                   if s3 < 0x80 \<or> 0xBF < s3 then (RuneError, 1)
                   else ((s0 mod 8) * 0x40000 + (s1 mod 0x40) * 0x1000
                           + (s2 mod 0x40) * 0x40 + s3 mod 0x40, 4))"

text \<open>
  \<open>utf8.EncodeRune\<close>: the UTF-8 bytes of a rune; a surrogate or a value beyond U+10FFFF
  is written as \<open>RuneError\<close>.
\<close>

definition encode3 :: "nat \<Rightarrow> string" where
  "encode3 r = [char_of (0xE0 + r div 0x1000), char_of (0x80 + (r div 0x40) mod 0x40),
                char_of (0x80 + r mod 0x40)]"

definition EncodeRune :: "nat \<Rightarrow> string" where
  "EncodeRune r =
     (if r \<le> 0x7F then [char_of r]
      else if r \<le> 0x7FF then [char_of (0xC0 + r div 0x40), char_of (0x80 + r mod 0x40)]
      else if 0x10FFFF < r \<or> (0xD800 \<le> r \<and> r \<le> 0xDFFF) then encode3 RuneError
      else if r \<le> 0xFFFF then encode3 r
      else [char_of (0xF0 + r div 0x40000), char_of (0x80 + (r div 0x1000) mod 0x40),
            char_of (0x80 + (r div 0x40) mod 0x40), char_of (0x80 + r mod 0x40)])"

text \<open>
  The runes of a string as a \<open>for range\<close> loop over it yields them: decode at the head,
  step over the width (which is at least one byte on a non-empty string).
\<close>

fun runes :: "string \<Rightarrow> nat list" where
  "runes [] = []"
| "runes (c # cs) =
     fst (DecodeRuneInString (c # cs))
       # runes (drop (snd (DecodeRuneInString (c # cs)) - 1) cs)"

text \<open>
  \<open>strings.Map(mapping, s)\<close> for a mapping that returns no negative rune: every rune of
  the string is replaced by the encoding of its image.
\<close>

definition Map :: "(nat \<Rightarrow> nat) \<Rightarrow> string \<Rightarrow> string" where
  "Map mapping s = concat (map (\<lambda>r. EncodeRune (mapping r)) (runes s))"

text \<open>
  \<open>strings.ToLower\<close>. A string of ASCII bytes only is lowered byte by byte; any other
  string goes through \<open>Map\<close> with \<open>unicode.ToLower\<close>. The case table of package
  \<open>unicode\<close> is not part of this repository: it is the parameter \<open>lower\<close>, a function
  from runes to runes.
\<close>

definition ascii_lower :: "char \<Rightarrow> char" where
  "ascii_lower c = (if 0x41 \<le> byte c \<and> byte c \<le> 0x5A then char_of (byte c + 0x20) else c)"

definition isASCII :: "string \<Rightarrow> bool" where
  "isASCII s = list_all (\<lambda>c. byte c < 0x80) s"

definition ToLower :: "(nat \<Rightarrow> nat) \<Rightarrow> string \<Rightarrow> string" where
  "ToLower lower s = (if isASCII s then map ascii_lower s else Map lower s)"

text \<open>
  A case table for the examples: \<open>unicode.ToLower\<close> as it is on the ASCII range, and the
  identity on every other rune.
\<close>

definition lower_ascii_only :: "nat \<Rightarrow> nat" where
  "lower_ascii_only r = (if 0x41 \<le> r \<and> r \<le> 0x5A then r + 0x20 else r)"

text \<open>\<open>strings.Contains(s, substr)\<close>: the bytes of \<open>substr\<close> stand somewhere in \<open>s\<close>.\<close>

fun Contains :: "string \<Rightarrow> string \<Rightarrow> bool" where
  "Contains [] substr = (substr = [])"
| "Contains (c # cs) substr = (HasPrefix (c # cs) substr \<or> Contains cs substr)"

text \<open>
  \<open>unicode.IsSpace\<close>: the runes with Unicode's White Space property.
\<close>

definition IsSpace :: "nat \<Rightarrow> bool" where
  "IsSpace r =
     ((0x09 \<le> r \<and> r \<le> 0x0D) \<or> r = 0x20 \<or> r = 0x85 \<or> r = 0xA0 \<or> r = 0x1680
      \<or> (0x2000 \<le> r \<and> r \<le> 0x200A) \<or> r = 0x2028 \<or> r = 0x2029 \<or> r = 0x202F
      \<or> r = 0x205F \<or> r = 0x3000)"

text \<open>
  \<open>utf8.DecodeLastRuneInString\<close>: the last rune of the string and its width. It walks back
  from the last byte over at most three more bytes to a byte that can start a rune, decodes
  from there, and gives \<open>RuneError\<close> with width 1 unless that rune ends where the string ends.
\<close>

definition RuneStart :: "char \<Rightarrow> bool" where
  "RuneStart c = (byte c < 0x80 \<or> 0xC0 \<le> byte c)"

definition DecodeLastRuneInString :: "string \<Rightarrow> nat \<times> nat" where
  "DecodeLastRuneInString s =
     (if s = [] then (RuneError, 0)
      else let e = length s in
        if byte (s ! (e - 1)) < 0x80 then (byte (s ! (e - 1)), 1)
        else
          let start =
               (if 2 \<le> e \<and> RuneStart (s ! (e - 2)) then e - 2
                else if 3 \<le> e \<and> RuneStart (s ! (e - 3)) then e - 3
                else if 4 \<le> e \<and> RuneStart (s ! (e - 4)) then e - 4
                else e - 5);
              d = DecodeRuneInString (drop start s)
          in if start + snd d \<noteq> e then (RuneError, 1) else d)"

text \<open>
  \<open>strings.TrimSpace\<close>: white space runes are taken off the front, then off the back.
\<close>

fun TrimLeftSpace :: "string \<Rightarrow> string" where
  "TrimLeftSpace [] = []"
| "TrimLeftSpace (c # cs) =
     (if IsSpace (fst (DecodeRuneInString (c # cs)))
      then TrimLeftSpace (drop (snd (DecodeRuneInString (c # cs)) - 1) cs)
      else c # cs)"

function TrimRightSpace :: "string \<Rightarrow> string" where
  "TrimRightSpace s =
     (if s = [] then []
      else if IsSpace (fst (DecodeLastRuneInString s))
        then TrimRightSpace (take (length s - max 1 (snd (DecodeLastRuneInString s))) s)
        else s)"
  by pat_completeness auto
termination
  by (relation "measure length") auto

definition TrimSpace :: "string \<Rightarrow> string" where
  "TrimSpace s = TrimRightSpace (TrimLeftSpace s)"

section \<open>Shapes of UTF-8 sequences\<close>

text \<open>
  Three notions used to reason about \<open>DecodeRuneInString\<close> and \<open>EncodeRune\<close>: the width
  that the first byte of a sequence announces; the shape of what \<open>EncodeRune\<close> writes (a byte
  that can start a rune, followed by bytes that cannot, as many as the first byte announces);
  and the condition under which the decoder accepts the first \<open>w\<close> bytes of a string as one
  sequence of two, three or four bytes. They serve the proofs about \<open>ToLower\<close>; no function
  of the program is defined through them.
\<close>

definition width_of :: "char \<Rightarrow> nat" where
  "width_of c = (if byte c < 0x80 then 1 else if byte c < 0xE0 then 2 else if byte c < 0xF0 then 3 else 4)"

definition enc_like :: "string \<Rightarrow> bool" where
  "enc_like c \<longleftrightarrow> c \<noteq> [] \<and> RuneStart (hd c) \<and> list_all (\<lambda>x. \<not> RuneStart x) (tl c)
      \<and> length c = width_of (hd c)"

definition sound_at :: "string \<Rightarrow> nat \<Rightarrow> bool" where
  "sound_at s w \<longleftrightarrow>
     0xC2 \<le> byte (s ! 0) \<and> byte (s ! 0) \<le> 0xF4 \<and> seq_size (byte (s ! 0)) = w \<and> w \<le> length s
     \<and> accept_lo (byte (s ! 0)) \<le> byte (s ! 1) \<and> byte (s ! 1) \<le> accept_hi (byte (s ! 0))
     \<and> (if 3 \<le> w then 0x80 \<le> byte (s ! 2) \<and> byte (s ! 2) \<le> 0xBF else True)
     \<and> (if 4 \<le> w then 0x80 \<le> byte (s ! 3) \<and> byte (s ! 3) \<le> 0xBF else True)"

section \<open>Regular expressions: the part of package regexp that intent.go uses\<close>

text \<open>
  The patterns of intent.go that the functions below need are built from literals, the
  classes \<open>.\<close> (any character but a newline), \<open>\s\<close> (tab, newline, form feed, carriage
  return, space), \<open>\S\<close> and \<open>[^`]\<close>, repetition of a class (\<open>*\<close>, \<open>+\<close>, greedy or not),
  alternation, an optional group, one capturing group, and the line anchors \<open>^\<close> and \<open>$\<close>
  of multi-line mode. A pattern is a value of \<open>re\<close>; \<open>Rep k n g\<close> is \<open>n\<close> or more
  characters of class \<open>k\<close>, as many as possible first when \<open>g\<close> holds and as few as possible
  first otherwise.

  Go's matcher returns the leftmost match and, among the matches that start there, the one a
  backtracking search finds first. \<open>rmatch\<close> lists the ways a pattern can match from a
  position of the text in the order backtracking tries them; a state is the position
  reached and the bounds of the capturing group, if it has matched.

  The classes are read byte by byte. The patterns below put a class only between literals,
  line boundaries and white space, so a run of bytes of a class is a run of whole runes and
  the bounds of a match are the ones Go finds.
\<close>

datatype cclass = AnyNotNL | Space | NotSpace | NotBacktick

definition is_space :: "char \<Rightarrow> bool" where
  "is_space c =
     (c = CHR 0x09 \<or> c = CHR 0x0A \<or> c = CHR 0x0C \<or> c = CHR 0x0D \<or> c = CHR 0x20)"

fun in_class :: "cclass \<Rightarrow> char \<Rightarrow> bool" where
  "in_class AnyNotNL c = (c \<noteq> nl)"
| "in_class Space c = is_space c"
| "in_class NotSpace c = (\<not> is_space c)"
| "in_class NotBacktick c = (c \<noteq> CHR 0x60)"

datatype re =
    Lit string
  | Rep cclass nat bool
  | Seq re re
  | Alt re re
  | Opt re
  | Cap re
  | BOL
  | EOL

type_synonym mstate = "nat \<times> (nat \<times> nat) option"

fun rmatch :: "string \<Rightarrow> re \<Rightarrow> mstate \<Rightarrow> mstate list" where
  "rmatch t (Lit s) (i, c) =
     (if take (length s) (drop i t) = s then [(i + length s, c)] else [])"
| "rmatch t (Rep k n greedy) (i, c) =
     (let m = length (takeWhile (in_class k) (drop i t));
          counts = [n..<Suc m]
      in map (\<lambda>j. (i + j, c)) (if greedy then rev counts else counts))"
| "rmatch t (Seq a b) st = concat (map (rmatch t b) (rmatch t a st))"
| "rmatch t (Alt a b) st = rmatch t a st @ rmatch t b st"
| "rmatch t (Opt a) st = rmatch t a st @ [st]"
| "rmatch t (Cap a) (i, c) = map (\<lambda>(j, c'). (j, Some (i, j))) (rmatch t a (i, c))"
| "rmatch t BOL (i, c) = (if i = 0 \<or> t ! (i - 1) = nl then [(i, c)] else [])"
| "rmatch t EOL (i, c) = (if i = length t \<or> t ! i = nl then [(i, c)] else [])"

text \<open>
  The leftmost match: the start positions are tried from the left (\<open>rest\<close> is the text
  from position \<open>i\<close> on), and at the first position where the pattern matches, the first
  way of matching is taken. The result is the start, the end and the bounds of the group.
\<close>

fun search :: "re \<Rightarrow> string \<Rightarrow> nat \<Rightarrow> string \<Rightarrow> (nat \<times> mstate) option" where
  "search r t i [] =
     (case rmatch t r (i, None) of [] \<Rightarrow> None | st # _ \<Rightarrow> Some (i, st))"
| "search r t i (x # rest) =
     (case rmatch t r (i, None) of [] \<Rightarrow> search r t (Suc i) rest | st # _ \<Rightarrow> Some (i, st))"

definition slice :: "string \<Rightarrow> nat \<Rightarrow> nat \<Rightarrow> string" where
  "slice t i j = take (j - i) (drop i t)"

text \<open>\<open>regexp.MatchString\<close>: does the pattern match somewhere in the text.\<close>

definition MatchString :: "re \<Rightarrow> string \<Rightarrow> bool" where
  "MatchString r t = (search r t 0 t \<noteq> None)"

text \<open>\<open>(*Regexp).FindString\<close>: the text of the leftmost match, empty when there is none.\<close>

definition FindString :: "re \<Rightarrow> string \<Rightarrow> string" where
  "FindString r t =
     (case search r t 0 t of None \<Rightarrow> [] | Some (i, j, c) \<Rightarrow> slice t i j)"

text \<open>
  \<open>(*Regexp).FindStringSubmatch\<close> for a pattern with one capturing group: no element
  when there is no match, else the text of the match and the text of the group (empty when
  the group took no part).
\<close>

definition FindStringSubmatch :: "re \<Rightarrow> string \<Rightarrow> string list" where
  "FindStringSubmatch r t =
     (case search r t 0 t of
        None \<Rightarrow> []
      | Some (i, j, c) \<Rightarrow>
          [slice t i j, (case c of None \<Rightarrow> [] | Some (a, b) \<Rightarrow> slice t a b)])"

section \<open>intent.go\<close>

subsection \<open>ParseUserIntent: the action\<close>

text \<open>
  The three pattern lists of \<open>ParseUserIntent\<close>, in the order of the source.
\<close>

definition createPatterns :: "re list" where
  "createPatterns =
     [Seq (Lit ([CHR 0xE5, CHR 0x88, CHR 0x9B, CHR 0xE5, CHR 0xBB, CHR 0xBA])) (Seq (Rep AnyNotNL 0 False) (Lit ([CHR 0xE6, CHR 0x96, CHR 0x87, CHR 0xE4, CHR 0xBB, CHR 0xB6]))),
      Seq (Lit (''create'')) (Seq (Rep AnyNotNL 0 False) (Lit (''file''))),
      Seq (Lit ([CHR 0xE5, CHR 0x86, CHR 0x99, CHR 0xE5, CHR 0x85, CHR 0xA5])) (Seq (Rep AnyNotNL 0 False) (Lit ([CHR 0xE6, CHR 0x96, CHR 0x87, CHR 0xE4, CHR 0xBB, CHR 0xB6]))),
      Seq (Lit (''write'')) (Seq (Rep AnyNotNL 0 False) (Lit (''to''))),
      Lit ([CHR 0xE5, CHR 0xB8, CHR 0xAE, CHR 0xE6, CHR 0x88, CHR 0x91, CHR 0xE5, CHR 0x88, CHR 0x9B, CHR 0xE5, CHR 0xBB, CHR 0xBA]),
      Lit ([CHR 0xE6, CHR 0x96, CHR 0xB0, CHR 0xE5, CHR 0xBB, CHR 0xBA])]"

definition readPatterns :: "re list" where
  "readPatterns =
     [Seq (Lit ([CHR 0xE8, CHR 0xAF, CHR 0xBB, CHR 0xE5, CHR 0x8F, CHR 0x96])) (Seq (Rep AnyNotNL 0 False) (Lit ([CHR 0xE6, CHR 0x96, CHR 0x87, CHR 0xE4, CHR 0xBB, CHR 0xB6]))),
      Seq (Lit (''read'')) (Seq (Rep AnyNotNL 0 False) (Lit (''file''))),
      Seq (Lit ([CHR 0xE6, CHR 0x9F, CHR 0xA5, CHR 0xE7, CHR 0x9C, CHR 0x8B])) (Seq (Rep AnyNotNL 0 False) (Lit ([CHR 0xE6, CHR 0x96, CHR 0x87, CHR 0xE4, CHR 0xBB, CHR 0xB6]))),
      Seq (Lit ([CHR 0xE7, CHR 0x9C, CHR 0x8B])) (Seq (Rep AnyNotNL 0 False) (Lit ([CHR 0xE5, CHR 0x86, CHR 0x85, CHR 0xE5, CHR 0xAE, CHR 0xB9]))),
      Seq (Lit (''cat'')) (Rep Space 1 True)]"

definition cmdPatterns :: "re list" where
  "cmdPatterns =
     [Seq (Lit ([CHR 0xE6, CHR 0x89, CHR 0xA7, CHR 0xE8, CHR 0xA1, CHR 0x8C])) (Seq (Rep AnyNotNL 0 False) (Lit ([CHR 0xE5, CHR 0x91, CHR 0xBD, CHR 0xE4, CHR 0xBB, CHR 0xA4]))),
      Seq (Lit (''run'')) (Seq (Rep AnyNotNL 0 False) (Lit (''command''))),
      Lit ([CHR 0xE8, CHR 0xBF, CHR 0x90, CHR 0xE8, CHR 0xA1, CHR 0x8C]),
      Lit (''execute'')]"

text \<open>
  One of the three loops: the patterns are tried in order, the first that matches sets the
  action and ends the loop; when none matches the action stays as it was.
\<close>

fun scan_patterns :: "re list \<Rightarrow> string \<Rightarrow> string \<Rightarrow> string \<Rightarrow> string" where
  "scan_patterns [] text action Action = Action"
| "scan_patterns (pattern # patterns) text action Action =
     (if MatchString pattern text then action
      else scan_patterns patterns text action Action)"

text \<open>
  The field \<open>Action\<close> of the intent that \<open>ParseUserIntent\<close> returns: the messages are
  joined by spaces and lowered, then the three loops run one after the other on the same
  field. (The fields \<open>FilePath\<close> and \<open>Content\<close> are computed after it and do not touch it.)
\<close>

definition ParseUserIntent_Action :: "(nat \<Rightarrow> nat) \<Rightarrow> string list \<Rightarrow> string" where
  "ParseUserIntent_Action lower messages =
     (let text = ToLower lower (Join messages '' '');
          Action = [];
          Action = scan_patterns createPatterns text ''create_file'' Action;
          Action = scan_patterns readPatterns text ''read_file'' Action;
          Action = scan_patterns cmdPatterns text ''run_command'' Action
      in Action)"

subsection \<open>DetectRefusal\<close>

definition refusalPatterns :: "string list" where
  "refusalPatterns =
     [[CHR 0xE6, CHR 0x97, CHR 0xA0, CHR 0xE6, CHR 0xB3, CHR 0x95, CHR 0xE7, CHR 0x9B, CHR 0xB4, CHR 0xE6, CHR 0x8E, CHR 0xA5],
      [CHR 0xE6, CHR 0x97, CHR 0xA0, CHR 0xE6, CHR 0xB3, CHR 0x95, CHR 0xE6, CHR 0x89, CHR 0xA7, CHR 0xE8, CHR 0xA1, CHR 0x8C],
      [CHR 0xE4, CHR 0xB8, CHR 0x8D, CHR 0xE8, CHR 0x83, CHR 0xBD, CHR 0xE6, CHR 0x89, CHR 0xA7, CHR 0xE8, CHR 0xA1, CHR 0x8C],
      [CHR 0xE5, CHR 0x8F, CHR 0x97, CHR 0xE5, CHR 0x88, CHR 0xB0, CHR 0xE4, CHR 0xBA, CHR 0x86, CHR 0xE9, CHR 0x99, CHR 0x90, CHR 0xE5, CHR 0x88, CHR 0xB6],
      [CHR 0xE6, CHR 0xB2, CHR 0xA1, CHR 0xE6, CHR 0x9C, CHR 0x89, CHR 0xE6, CHR 0x9D, CHR 0x83, CHR 0xE9, CHR 0x99, CHR 0x90],
      [CHR 0xE6, CHR 0x97, CHR 0xA0, CHR 0xE6, CHR 0xB3, CHR 0x95, CHR 0xE5, CHR 0xB8, CHR 0xAE, CHR 0xE4, CHR 0xBD, CHR 0xA0],
      ''cannot directly'',
      ''unable to'',
      ''don'' @ [CHR 0x27] @ ''t have access'',
      ''I can'' @ [CHR 0x27] @ ''t'',
      [CHR 0xE6, CHR 0x88, CHR 0x91, CHR 0xE4, CHR 0xB8, CHR 0x8D, CHR 0xE8, CHR 0x83, CHR 0xBD],
      [CHR 0xE6, CHR 0x88, CHR 0x91, CHR 0xE6, CHR 0x97, CHR 0xA0, CHR 0xE6, CHR 0xB3, CHR 0x95],
      [CHR 0xE8, CHR 0xAF, CHR 0xB7, CHR 0xE5, CHR 0x9C, CHR 0xA8, CHR 0xE4, CHR 0xBD, CHR 0xA0, CHR 0xE7, CHR 0x9A, CHR 0x84, CHR 0xE7, CHR 0xBB, CHR 0x88, CHR 0xE7, CHR 0xAB, CHR 0xAF],
      [CHR 0xE8, CHR 0xAF, CHR 0xB7, CHR 0xE5, CHR 0x9C, CHR 0xA8, CHR 0xE6, CHR 0x9C, CHR 0xAC, CHR 0xE5, CHR 0x9C, CHR 0xB0],
      [CHR 0xE4, CHR 0xBD, CHR 0xA0, CHR 0xE9, CHR 0x9C, CHR 0x80, CHR 0xE8, CHR 0xA6, CHR 0x81, CHR 0xE5, CHR 0x9C, CHR 0xA8],
      [CHR 0xE4, CHR 0xBD, CHR 0xA0, CHR 0xE5, CHR 0x8F, CHR 0xAF, CHR 0xE4, CHR 0xBB, CHR 0xA5, CHR 0xE8, CHR 0xBF, CHR 0x90, CHR 0xE8, CHR 0xA1, CHR 0x8C]]"

fun any_pattern :: "(nat \<Rightarrow> nat) \<Rightarrow> string \<Rightarrow> string list \<Rightarrow> bool" where
  "any_pattern lower responseLower [] = False"
| "any_pattern lower responseLower (pattern # patterns) =
     (if Contains responseLower (ToLower lower pattern) then True
      else any_pattern lower responseLower patterns)"

definition DetectRefusal :: "(nat \<Rightarrow> nat) \<Rightarrow> string \<Rightarrow> bool" where
  "DetectRefusal lower response =
     (let responseLower = ToLower lower response
      in any_pattern lower responseLower refusalPatterns)"

subsection \<open>ExtractCommandFromRefusal\<close>

definition codeBlockRe :: re where
  "codeBlockRe =
     Seq (Lit ([CHR 0x60, CHR 0x60, CHR 0x60]))
      (Seq (Opt (Alt (Lit ''bash'') (Lit ''sh'')))
        (Seq (Rep Space 0 True)
          (Seq (Lit [nl])
            (Seq (Cap (Rep NotBacktick 1 True)) (Lit ([CHR 0x0A, CHR 0x60, CHR 0x60, CHR 0x60]))))))"

definition verbLineRe :: re where
  "verbLineRe =
     Seq BOL
      (Seq (Rep Space 0 True)
        (Seq (Cap (Alt (Lit (''cat'')) (Alt (Lit (''echo'')) (Alt (Lit (''mkdir'')) (Alt (Lit (''touch'')) (Alt (Lit (''rm'')) (Alt (Lit (''cp'')) (Alt (Lit (''mv'')) (Alt (Lit (''ls'')) (Alt (Lit (''cd'')) (Lit (''pwd''))))))))))))
          (Seq (Rep Space 1 True) (Seq (Rep AnyNotNL 1 True) EOL))))"

definition redirectRe :: re where
  "redirectRe =
     Seq BOL
      (Seq (Rep Space 0 True)
        (Seq (Cap (Rep NotSpace 1 True))
          (Seq (Rep Space 1 True)
            (Seq (Lit ''>'') (Seq (Rep Space 1 True) (Rep NotSpace 1 True))))))"

fun first_found :: "re list \<Rightarrow> string \<Rightarrow> string" where
  "first_found [] response = []"
| "first_found (r # rs) response =
     (if FindString r response \<noteq> [] then TrimSpace (FindString r response)
      else first_found rs response)"

definition ExtractCommandFromRefusal :: "string \<Rightarrow> string" where
  "ExtractCommandFromRefusal response =
     (let matches = FindStringSubmatch codeBlockRe response
      in if length matches > 1 then TrimSpace (matches ! 1)
         else first_found [verbLineRe, redirectRe] response)"

section \<open>anthropic.go\<close>

subsection \<open>Data\<close>

text \<open>
  A value of type \<open>interface{}\<close> that stands in a tool input, as JSON gives it, and the
  input itself, a \<open>map[string]interface{}\<close>.
\<close>

datatype json =
    JString string
  | JNumber int
  | JBool bool
  | JNull
  | JArray "json list"
  | JObject "(string \<times> json) list"

type_synonym Input = "string \<rightharpoonup> json"

text \<open>
  A tool call as \<open>ParseToolCalls\<close> returns it; the handlers read its fields \<open>Name\<close> and
  \<open>Input\<close>.
\<close>

datatype ToolCall = ToolCall (call_Name: string) (call_Input: Input)

record ContentBlock =
  Type :: string
  Text :: string
  ID :: string
  Name :: string
  Input :: Input

datatype CursorSSEEvent = CursorSSEEvent (event_Type: string) (Delta: string)

record MessagesResponse =
  resp_ID :: string
  resp_Type :: string
  Role :: string
  Content :: "ContentBlock list"
  Model :: string
  StopReason :: string
  InputTokens :: nat
  OutputTokens :: nat

text \<open>
  What the handlers take from outside the two files:
  \<^item> \<open>ParseToolCalls\<close>, the parser of package tools: the tool calls found in a text and the
    text that remains;
  \<^item> \<open>Execute\<close>, the executor of package tools: \<open>Inr\<close> the output, or \<open>Inl\<close> the text of the
    error;
  \<^item> \<open>generateID\<close>: the identifiers are random; \<open>generateID env n\<close> is the identifier that
    the \<open>n\<close>-th call of \<open>generateID()\<close> within one request returns, counted from 0;
  \<^item> \<open>Unmarshal\<close>, \<open>json.Unmarshal\<close> into a \<open>CursorSSEEvent\<close>: \<open>None\<close> when it returns an
    error;
  \<^item> \<open>Marshal\<close>, \<open>json.Marshal\<close> of a tool input;
  \<^item> \<open>unicode_ToLower\<close>, the case table of package unicode.
\<close>

record env =
  ParseToolCalls :: "string \<Rightarrow> ToolCall list \<times> string"
  Execute :: "string \<Rightarrow> Input \<Rightarrow> string + string"
  generateID :: "nat \<Rightarrow> string"
  Unmarshal :: "string \<Rightarrow> CursorSSEEvent option"
  Marshal :: "Input \<Rightarrow> string"
  unicode_ToLower :: "nat \<Rightarrow> nat"

subsection \<open>parseResponseToBlocks\<close>

text \<open>
  The result carries, beside the blocks, the calls of the executor that were made (tool name
  and input, in call order) and the number of identifiers drawn so far.
\<close>

record parsed =
  blocks :: "ContentBlock list"
  executed :: "(string \<times> Input) list"
  drawn :: nat

definition text_block :: "string \<Rightarrow> ContentBlock" where
  "text_block t = \<lparr>Type = ''text'', Text = t, ID = [], Name = [], Input = Map.empty\<rparr>"

definition tool_use_block :: "string \<Rightarrow> string \<Rightarrow> Input \<Rightarrow> ContentBlock" where
  "tool_use_block i n inp = \<lparr>Type = ''tool_use'', Text = [], ID = i, Name = n, Input = inp\<rparr>"

definition notice_text :: string where
  "notice_text = [CHR 0xE6, CHR 0xAD, CHR 0xA3, CHR 0xE5, CHR 0x9C, CHR 0xA8, CHR 0xE6, CHR 0x89, CHR 0xA7, CHR 0xE8, CHR 0xA1, CHR 0x8C, CHR 0xE5, CHR 0x91, CHR 0xBD, CHR 0xE4, CHR 0xBB, CHR 0xA4] @ ''...''"

definition success_marker :: string where
  "success_marker = [CHR 0xE2, CHR 0x9C, CHR 0x85] @ '' '' @ [CHR 0xE5, CHR 0x91, CHR 0xBD, CHR 0xE4, CHR 0xBB, CHR 0xA4, CHR 0xE6, CHR 0x89, CHR 0xA7, CHR 0xE8, CHR 0xA1, CHR 0x8C, CHR 0xE6, CHR 0x88, CHR 0x90, CHR 0xE5, CHR 0x8A, CHR 0x9F]"

definition failure_marker :: string where
  "failure_marker = [CHR 0xE2, CHR 0x9D, CHR 0x8C] @ '' '' @ [CHR 0xE5, CHR 0x91, CHR 0xBD, CHR 0xE4, CHR 0xBB, CHR 0xA4, CHR 0xE6, CHR 0x89, CHR 0xA7, CHR 0xE8, CHR 0xA1, CHR 0x8C, CHR 0xE5, CHR 0xA4, CHR 0xB1, CHR 0xE8, CHR 0xB4, CHR 0xA5]"

text \<open>\<open>fmt.Sprintf\<close> with the format of the result text: two newlines, the status, a colon and
  the result in a fenced block.\<close>

definition result_text :: "string \<Rightarrow> string \<Rightarrow> string" where
  "result_text statusText resultText =
     [nl, nl] @ statusText @ '':'' @ [CHR 0x0A, CHR 0x60, CHR 0x60, CHR 0x60, CHR 0x0A] @ resultText @ [CHR 0x0A, CHR 0x60, CHR 0x60, CHR 0x60]"

text \<open>The loop that appends one tool-use block per tool call, each with a fresh identifier.\<close>

fun add_tool_blocks :: "env \<Rightarrow> nat \<Rightarrow> ContentBlock list \<Rightarrow> ToolCall list \<Rightarrow> ContentBlock list \<times> nat" where
  "add_tool_blocks env n bs [] = (bs, n)"
| "add_tool_blocks env n bs (call # calls) =
     add_tool_blocks env (Suc n)
       (bs @ [tool_use_block (''toolu_'' @ generateID env n) (call_Name call) (call_Input call)])
       calls"

definition parseResponseToBlocks :: "env \<Rightarrow> nat \<Rightarrow> string \<Rightarrow> string list \<Rightarrow> parsed" where
  "parseResponseToBlocks env n text userMessages =
     (let (toolCalls, remainingText) = ParseToolCalls env text;
          cmd = ExtractCommandFromRefusal text
      in if length toolCalls = 0 \<and> DetectRefusal (unicode_ToLower env) text \<and> cmd \<noteq> []
         then
           let inp = [''command'' \<mapsto> JString cmd];
               r = Execute env ''bash'' inp;
               resultText = (case r of Inl err \<Rightarrow> err | Inr output \<Rightarrow> output);
               isError = (case r of Inl err \<Rightarrow> True | Inr output \<Rightarrow> False);
               toolID = ''toolu_'' @ generateID env n;
               statusText = (if isError then failure_marker else success_marker)
           in \<lparr>blocks = [text_block notice_text,
                          tool_use_block toolID ''bash'' inp,
                          text_block (result_text statusText resultText)],
               executed = [(''bash'', inp)],
               drawn = Suc n\<rparr>
         else
           let bs = (if remainingText \<noteq> [] then [text_block remainingText] else []);
               (bs, n') = add_tool_blocks env n bs toolCalls;
               bs = (if length bs = 0 then bs @ [text_block text] else bs)
           in \<lparr>blocks = bs, executed = [], drawn = n'\<rparr>)"

text \<open>
  The condition under which \<open>parseResponseToBlocks\<close> runs the extracted command: no tool
  call was parsed, the text is classified as a refusal, and a command was extracted.
\<close>

definition recovers :: "env \<Rightarrow> string \<Rightarrow> bool" where
  "recovers env text \<longleftrightarrow>
     fst (ParseToolCalls env text) = [] \<and> DetectRefusal (unicode_ToLower env) text
     \<and> ExtractCommandFromRefusal text \<noteq> []"

text \<open>
  The tool-use blocks that the loop over the tool calls appends when the next identifier
  to draw is the \<open>n\<close>-th.
\<close>

definition tool_blocks_from :: "env \<Rightarrow> nat \<Rightarrow> ToolCall list \<Rightarrow> ContentBlock list" where
  "tool_blocks_from env n calls =
     map (\<lambda>(i, c). tool_use_block (''toolu_'' @ generateID env i) (call_Name c) (call_Input c))
       (enumerate n calls)"

subsection \<open>handleNonStream\<close>

text \<open>
  The loop over the lines of an upstream answer that both handlers share in substance: a
  line counts when it starts with \<open>data: \<close>, has a payload, the payload decodes, and the
  event is a text delta with a non-empty delta. \<open>text_delta_of\<close> gives that delta.
\<close>

definition text_delta_of :: "env \<Rightarrow> string \<Rightarrow> string option" where
  "text_delta_of env line =
     (if \<not> HasPrefix line ''data: '' then None
      else let data = TrimPrefix line ''data: '' in
        if data = [] then None
        else case Unmarshal env data of
               None \<Rightarrow> None
             | Some event \<Rightarrow>
                 if event_Type event = ''text-delta'' \<and> Delta event \<noteq> []
                 then Some (Delta event) else None)"

fun fullText_of :: "env \<Rightarrow> string \<Rightarrow> string list \<Rightarrow> string" where
  "fullText_of env fullText [] = fullText"
| "fullText_of env fullText (line # lines) =
     (case text_delta_of env line of
        None \<Rightarrow> fullText_of env fullText lines
      | Some delta \<Rightarrow> fullText_of env (fullText @ delta) lines)"

fun stopReason_of :: "ContentBlock list \<Rightarrow> string" where
  "stopReason_of [] = ''end_turn''"
| "stopReason_of (block # bs) =
     (if Type block = ''tool_use'' then ''tool_use'' else stopReason_of bs)"

datatype http_response =
    InternalServerError string
  | OK MessagesResponse

text \<open>
  \<open>upstream\<close> is what \<open>SendRequest\<close> returned: \<open>Inl\<close> the error, or \<open>Inr\<close> the whole answer.
  The response comes with the calls of the executor made on the way.
\<close>

definition handleNonStream :: "env \<Rightarrow> string + string \<Rightarrow> string \<Rightarrow> http_response \<times> (string \<times> Input) list" where
  "handleNonStream env upstream model =
     (case upstream of
        Inl err \<Rightarrow> (InternalServerError err, [])
      | Inr result \<Rightarrow>
          let responseText = fullText_of env [] (Split result nl);
              p = parseResponseToBlocks env 0 responseText [];
              contentBlocks = blocks p;
              stopReason = stopReason_of contentBlocks
          in (OK \<lparr>resp_ID = ''msg_'' @ generateID env (drawn p), resp_Type = ''message'',
                   Role = ''assistant'', Content = contentBlocks, Model = model,
                   StopReason = stopReason, InputTokens = 100, OutputTokens = 100\<rparr>,
              executed p))"

subsection \<open>handleStream\<close>

text \<open>
  The events written to the client, one constructor per kind of event, with the fields
  that vary: \<open>message_start\<close> has the message id and the model; a block event has its index;
  \<open>content_block_delta_text\<close> has the delta that \<open>json.Marshal\<close> encodes into the field
  \<open>text\<close>; \<open>content_block_start_tool_use\<close> has the tool id and the tool name;
  \<open>content_block_delta_input_json\<close> has the characters written between the quotes of
  \<open>partial_json\<close>; \<open>message_delta\<close> has the stop reason.
\<close>

datatype sse =
    message_start string string
  | content_block_start_text nat
  | content_block_delta_text nat string
  | error_event string
  | content_block_stop nat
  | content_block_start_tool_use nat string string
  | content_block_delta_input_json nat string
  | message_delta string
  | message_stop

text \<open>\<open>strings.ReplaceAll\<close> for an old string of one byte.\<close>

definition ReplaceAll :: "string \<Rightarrow> char \<Rightarrow> string \<Rightarrow> string" where
  "ReplaceAll s old new = concat (map (\<lambda>c. if c = old then new else [c]) s)"

definition escapeJSON :: "string \<Rightarrow> string" where
  "escapeJSON s0 =
     (let s = ReplaceAll s0 (CHR 0x5C) [CHR 0x5C, CHR 0x5C];
          s = ReplaceAll s (CHR 0x22) [CHR 0x5C, CHR 0x22];
          s = ReplaceAll s (CHR 0x0A) [CHR 0x5C, CHR ''n''];
          s = ReplaceAll s (CHR 0x0D) [CHR 0x5C, CHR ''r''];
          s = ReplaceAll s (CHR 0x09) [CHR 0x5C, CHR ''t'']
      in s)"

text \<open>
  The state of the callback: the line buffer, the accumulated response and the events
  written so far.
\<close>

record stream_state =
  buffer :: string
  fullResponse :: string
  written :: "sse list"

definition on_line :: "env \<Rightarrow> stream_state \<Rightarrow> string \<Rightarrow> stream_state" where
  "on_line env st line =
     (case text_delta_of env line of
        None \<Rightarrow> st
      | Some delta \<Rightarrow>
          st\<lparr>fullResponse := fullResponse st @ delta,
             written := written st @ [content_block_delta_text 0 delta]\<rparr>)"

definition on_chunk :: "env \<Rightarrow> stream_state \<Rightarrow> string \<Rightarrow> stream_state" where
  "on_chunk env st chunk =
     (let (lines, buffer') = feed (buffer st) chunk
      in foldl (on_line env) (st\<lparr>buffer := buffer'\<rparr>) lines)"

text \<open>The loop over the tool calls: start, delta and stop of block \<open>i + 1\<close> for call \<open>i\<close>.\<close>

fun tool_events :: "env \<Rightarrow> nat \<Rightarrow> ToolCall list \<Rightarrow> sse list" where
  "tool_events env i [] = []"
| "tool_events env i (call # calls) =
     [content_block_start_tool_use (i + 1) (''toolu_'' @ generateID env (i + 1)) (call_Name call),
      content_block_delta_input_json (i + 1) (escapeJSON (Marshal env (call_Input call))),
      content_block_stop (i + 1)]
     @ tool_events env (Suc i) calls"

text \<open>
  \<open>chunks\<close> are the chunks that \<open>SendStreamRequest\<close> hands to the callback, in order, and
  \<open>err\<close> is the error it returns in the end, if any. The result is the event stream.
\<close>

definition stream_start :: "env \<Rightarrow> string \<Rightarrow> stream_state" where
  "stream_start env model =
     \<lparr>buffer = [], fullResponse = [],
      written = [message_start (''msg_'' @ generateID env 0) model, content_block_start_text 0]\<rparr>"

definition handleStream :: "env \<Rightarrow> string list \<Rightarrow> string option \<Rightarrow> string \<Rightarrow> sse list" where
  "handleStream env chunks err model =
     (let st = foldl (on_chunk env) (stream_start env model) chunks;
          w = written st @ (case err of None \<Rightarrow> [] | Some e \<Rightarrow> [error_event e]);
          w = w @ [content_block_stop 0];
          responseText = fullResponse st;
          (toolCalls, remainingText) = ParseToolCalls env responseText;
          stopReason = (if length toolCalls > 0 then ''tool_use'' else ''end_turn'');
          w = (if length toolCalls > 0 then w @ tool_events env 0 toolCalls else w)
      in w @ [message_delta stopReason, message_stop])"

text \<open>The accumulated text of a streamed response: \<open>fullResponse\<close> after the last chunk.\<close>

definition AccumulatedText :: "env \<Rightarrow> string list \<Rightarrow> string" where
  "AccumulatedText env chunks = fullResponse (foldl (on_chunk env) (stream_start env []) chunks)"

section \<open>Reading the event stream\<close>

text \<open>
  The deltas that a list of lines carries: of every line that counts, its delta, in the
  order of the lines.
\<close>

definition upstream_deltas :: "env \<Rightarrow> string list \<Rightarrow> string list" where
  "upstream_deltas env frames = List.map_filter (text_delta_of env) frames"

text \<open>The texts of the text-delta events written for the block of a given index.\<close>

fun delta_texts :: "nat \<Rightarrow> sse list \<Rightarrow> string list" where
  "delta_texts i [] = []"
| "delta_texts i (content_block_delta_text j t # evs) =
     (if j = i then t # delta_texts i evs else delta_texts i evs)"
| "delta_texts i (e # evs) = delta_texts i evs"

text \<open>The partial JSON written for the block of a given index.\<close>

fun delta_jsons :: "nat \<Rightarrow> sse list \<Rightarrow> string list" where
  "delta_jsons i [] = []"
| "delta_jsons i (content_block_delta_input_json j t # evs) =
     (if j = i then t # delta_jsons i evs else delta_jsons i evs)"
| "delta_jsons i (e # evs) = delta_jsons i evs"

text \<open>The block index that an event carries, if it is a block event.\<close>

fun block_index :: "sse \<Rightarrow> nat option" where
  "block_index (content_block_start_text i) = Some i"
| "block_index (content_block_delta_text i t) = Some i"
| "block_index (content_block_stop i) = Some i"
| "block_index (content_block_start_tool_use i tid name) = Some i"
| "block_index (content_block_delta_input_json i p) = Some i"
| "block_index e = None"




definition events_of_block :: "nat \<Rightarrow> sse list \<Rightarrow> sse list" where
  "events_of_block i evs = filter (\<lambda>e. block_index e = Some i) evs"

fun stop_reasons :: "sse list \<Rightarrow> string list" where
  "stop_reasons [] = []"
| "stop_reasons (message_delta r # evs) = r # stop_reasons evs"
| "stop_reasons (e # evs) = stop_reasons evs"

fun is_tool_start :: "sse \<Rightarrow> bool" where
  "is_tool_start (content_block_start_tool_use i tid name) = True"
| "is_tool_start e = False"

text \<open>
  A content block as a client sees it, whichever way it arrives: a text block with its
  text, or a tool-use block with its name and its input as (escaped) JSON. Identifiers are
  left out: they are random.
\<close>

datatype block_view = text_view string | tool_use_view string string

definition view_of_block :: "env \<Rightarrow> ContentBlock \<Rightarrow> block_view" where
  "view_of_block env b =
     (if Type b = ''tool_use'' then tool_use_view (Name b) (escapeJSON (Marshal env (Input b)))
      else text_view (Text b))"

definition tool_view :: "env \<Rightarrow> ToolCall \<Rightarrow> block_view" where
  "tool_view env c = tool_use_view (call_Name c) (escapeJSON (Marshal env (call_Input c)))"

fun is_tool_view :: "block_view \<Rightarrow> bool" where
  "is_tool_view (tool_use_view n i) = True"
| "is_tool_view (text_view t) = False"

text \<open>
  The content blocks that an event stream carries: one per start event, in the order of the
  start events, with the deltas written for its index put together.
\<close>

fun started_blocks :: "sse list \<Rightarrow> sse list \<Rightarrow> block_view list" where
  "started_blocks all [] = []"
| "started_blocks all (content_block_start_text i # evs) =
     text_view (concat (delta_texts i all)) # started_blocks all evs"
| "started_blocks all (content_block_start_tool_use i tid name # evs) =
     tool_use_view name (concat (delta_jsons i all)) # started_blocks all evs"
| "started_blocks all (e # evs) = started_blocks all evs"

definition stream_blocks :: "sse list \<Rightarrow> block_view list" where
  "stream_blocks evs = started_blocks evs evs"

section \<open>Environments for the examples\<close>

text \<open>
  A refusal with a command in a fenced block, and the payloads of three upstream lines.
\<close>

definition refusal_text :: string where
  "refusal_text = ''I can'' @ [CHR 0x27] @ ''t do that.'' @ [CHR 0x0A, CHR 0x60, CHR 0x60, CHR 0x60] @ ''bash'' @ [CHR 0x0A] @ ''ls -la'' @ [CHR 0x0A, CHR 0x60, CHR 0x60, CHR 0x60]"

definition refusal_payload :: string where
  "refusal_payload = ''{'' @ [CHR 0x22] @ ''type'' @ [CHR 0x22] @ '':'' @ [CHR 0x22] @ ''text-delta'' @ [CHR 0x22] @ '','' @ [CHR 0x22] @ ''delta'' @ [CHR 0x22] @ '':'' @ [CHR 0x22] @ ''I can'' @ [CHR 0x27] @ ''t do that.'' @ [CHR 0x5C] @ ''n'' @ [CHR 0x60, CHR 0x60, CHR 0x60] @ ''bash'' @ [CHR 0x5C] @ ''nls -la'' @ [CHR 0x5C] @ ''n'' @ [CHR 0x60, CHR 0x60, CHR 0x60, CHR 0x22] @ ''}''"

definition hello_payload :: string where
  "hello_payload = ''{'' @ [CHR 0x22] @ ''type'' @ [CHR 0x22] @ '':'' @ [CHR 0x22] @ ''text-delta'' @ [CHR 0x22] @ '','' @ [CHR 0x22] @ ''delta'' @ [CHR 0x22] @ '':'' @ [CHR 0x22] @ ''Hello'' @ [CHR 0x22] @ ''}''"

definition finish_payload :: string where
  "finish_payload = ''{'' @ [CHR 0x22] @ ''type'' @ [CHR 0x22] @ '':'' @ [CHR 0x22] @ ''finish'' @ [CHR 0x22] @ ''}''"

text \<open>
  \<open>json.Unmarshal\<close> on these payloads, and an error on anything else.
\<close>

definition example_Unmarshal :: "string \<Rightarrow> CursorSSEEvent option" where
  "example_Unmarshal data =
     (if data = refusal_payload then Some (CursorSSEEvent ''text-delta'' refusal_text)
      else if data = hello_payload then Some (CursorSSEEvent ''text-delta'' ''Hello'')
      else if data = finish_payload then Some (CursorSSEEvent ''finish'' [])
      else None)"

text \<open>
  An environment where the parser finds no tool call and leaves the text as it is, and the
  executor succeeds; one where the executor fails; and one where the parser finds one call
  of a tool \<open>read_file\<close> in every text and leaves no text.
\<close>

definition example_env :: env where
  "example_env =
     \<lparr>ParseToolCalls = (\<lambda>t. ([], t)),
      Execute = (\<lambda>name inp. Inr ''total 0''),
      generateID = (\<lambda>n. replicate n (CHR ''a'')),
      Unmarshal = example_Unmarshal,
      Marshal = (\<lambda>inp. ''{}''),
      unicode_ToLower = lower_ascii_only\<rparr>"

definition failing_env :: env where
  "failing_env = example_env\<lparr>Execute := (\<lambda>name inp. Inl ''exit status 2'')\<rparr>"

definition tool_env :: env where
  "tool_env =
     example_env\<lparr>ParseToolCalls := (\<lambda>t. ([ToolCall ''read_file'' Map.empty], []))\<rparr>"

text \<open>
  The line \<open>data: \<close> followed by the payload with the delta \<open>Hello\<close>, cut into two chunks
  inside the delta.
\<close>

definition hello_chunks :: "string list" where
  "hello_chunks = [''data: {'' @ [CHR 0x22] @ ''type'' @ [CHR 0x22] @ '':'' @ [CHR 0x22] @ ''text-delta'' @ [CHR 0x22] @ '','' @ [CHR 0x22] @ ''delta'' @ [CHR 0x22] @ '':'' @ [CHR 0x22] @ ''He'', ''llo'' @ [CHR 0x22] @ ''}'' @ [CHR 0x0A]]"

text \<open>The line with the refusal payload, as one chunk.\<close>

definition refusal_chunks :: "string list" where
  "refusal_chunks = [''data: '' @ refusal_payload @ [nl]]"

text \<open>
  An upstream answer with lines of every kind. The payloads of four more lines: a text delta
  \<open>Hel\<close>, a text delta that is empty, an event of another type with a delta, and a text delta
  of 49 bytes.
\<close>

definition part1_payload :: string where
  "part1_payload = ''{'' @ [CHR 0x22] @ ''type'' @ [CHR 0x22] @ '':'' @ [CHR 0x22] @ ''text-delta'' @ [CHR 0x22] @ '','' @ [CHR 0x22] @ ''delta'' @ [CHR 0x22] @ '':'' @ [CHR 0x22] @ ''Hel'' @ [CHR 0x22] @ ''}''"

definition empty_delta_payload :: string where
  "empty_delta_payload = ''{'' @ [CHR 0x22] @ ''type'' @ [CHR 0x22] @ '':'' @ [CHR 0x22] @ ''text-delta'' @ [CHR 0x22] @ '','' @ [CHR 0x22] @ ''delta'' @ [CHR 0x22] @ '':'' @ [CHR 0x22, CHR 0x22] @ ''}''"

definition reasoning_payload :: string where
  "reasoning_payload = ''{'' @ [CHR 0x22] @ ''type'' @ [CHR 0x22] @ '':'' @ [CHR 0x22] @ ''reasoning-delta'' @ [CHR 0x22] @ '','' @ [CHR 0x22] @ ''delta'' @ [CHR 0x22] @ '':'' @ [CHR 0x22] @ ''hidden'' @ [CHR 0x22] @ ''}''"

definition part2_payload :: string where
  "part2_payload = ''{'' @ [CHR 0x22] @ ''type'' @ [CHR 0x22] @ '':'' @ [CHR 0x22] @ ''text-delta'' @ [CHR 0x22] @ '','' @ [CHR 0x22] @ ''delta'' @ [CHR 0x22] @ '':'' @ [CHR 0x22] @ ''lo, world: this delta is longer than forty bytes.'' @ [CHR 0x22] @ ''}''"

text \<open>\<open>json.Unmarshal\<close> on these payloads and on \<open>finish_payload\<close>, and an error on anything else.\<close>

definition stream_Unmarshal :: "string \<Rightarrow> CursorSSEEvent option" where
  "stream_Unmarshal data =
     (if data = part1_payload then Some (CursorSSEEvent ''text-delta'' ''Hel'')
      else if data = empty_delta_payload then Some (CursorSSEEvent ''text-delta'' [])
      else if data = reasoning_payload then Some (CursorSSEEvent ''reasoning-delta'' ''hidden'')
      else if data = part2_payload
        then Some (CursorSSEEvent ''text-delta'' ''lo, world: this delta is longer than forty bytes.'')
      else if data = finish_payload then Some (CursorSSEEvent ''finish'' [])
      else None)"

definition stream_env :: env where
  "stream_env = example_env\<lparr>Unmarshal := stream_Unmarshal\<rparr>"

text \<open>
  Four chunks that carry, in this order, the line with \<open>Hel\<close>, a line without the marker
  \<open>data: \<close>, a line with the marker and no payload, a line whose payload does not decode, the
  line with the empty delta, the line with the event of another type, a blank line, the line
  with the long delta and the line with the finish event. The chunks end inside a marker,
  after a newline, before a newline and after the last newline.
\<close>

definition stream_chunks :: "string list" where
  "stream_chunks =
     [''data: '' @ part1_payload @ [nl] @ '': keep-alive'' @ [nl] @ ''da'',
      ''ta: '' @ [nl] @ ''data: not json'' @ [nl] @ ''data: '' @ empty_delta_payload @ [nl],
      ''data: '' @ reasoning_payload @ [nl, nl] @ ''data: '' @ part2_payload,
      [nl] @ ''data: '' @ finish_payload @ [nl]]"

text \<open>
  An environment where the parser finds no tool call and returns the text without the white
  space around it.
\<close>

definition trimming_env :: env where
  "trimming_env = example_env\<lparr>ParseToolCalls := (\<lambda>t. ([], TrimSpace t))\<rparr>"

section \<open>Properties of the line splitter\<close>

lemma Split_not_Nil: "Split s sep \<noteq> []"
  by (induction s) (auto split: list.splits)

lemma reinsert_Split: "reinsert (butlast (Split s nl)) (last (Split s nl)) = s"
proof (induction s)
  case Nil
  show ?case by (simp add: reinsert_def)
next
  case (Cons c cs)
  have ne: "Split cs nl \<noteq> []" by (rule Split_not_Nil)
  then obtain l ls where sp: "Split cs nl = l # ls" by (cases "Split cs nl") auto
  show ?case
  proof (cases "c = nl")
    case True
    with Cons ne show ?thesis by (simp add: reinsert_def)
  next
    case False
    with Cons sp show ?thesis by (cases ls) (auto simp: reinsert_def)
  qed
qed

lemma Split_single_Nil: "Split s sep = [[]] \<Longrightarrow> s = []"
  using Split_not_Nil[of "tl s" sep] by (cases s) (auto split: if_splits list.splits)

lemma Split_append:
  "Split (x @ y) sep = butlast (Split x sep) @ Split (last (Split x sep) @ y) sep"
proof (induction x)
  case Nil
  show ?case by simp
next
  case (Cons c cs)
  obtain l ls where sp: "Split cs sep = l # ls"
    using Split_not_Nil[of cs sep] by (cases "Split cs sep") auto
  show ?case
  proof (cases "c = sep")
    case True
    with Cons sp show ?thesis by simp
  next
    case False
    show ?thesis
    proof (cases ls)
      case Nil
      with Cons sp False show ?thesis by simp
    next
      case (Cons a as)
      with Cons.IH sp False show ?thesis
        using Split_not_Nil[of "last (l # ls) @ y" sep] by (auto)
    qed
  qed
qed

lemma HasSuffix_nl: "HasSuffix s [nl] \<longleftrightarrow> (s \<noteq> [] \<and> last s = nl)"
  by (cases s rule: rev_cases) (auto simp: HasSuffix_def)

lemma last_Split_Nil_iff: "last (Split s sep) = [] \<longleftrightarrow> (s = [] \<or> last s = sep)"
proof (induction s)
  case Nil show ?case by simp
next
  case (Cons c cs)
  obtain l ls where sp: "Split cs sep = l # ls"
    using Split_not_Nil[of cs sep] by (cases "Split cs sep") auto
  show ?case using Cons sp Split_single_Nil[of cs sep] by (cases ls) (auto)
qed

lemma feed_fst: "fst (feed b c) = butlast (Split (b @ c) nl) @ (if HasSuffix (b @ c) [nl] then [[]] else [])"
  using Split_not_Nil[of "b @ c" nl] last_Split_Nil_iff[of "b @ c" nl]
  apply (auto simp: feed_def Let_def HasSuffix_nl)
  by (metis append_butlast_last_id)+

lemma feed_snd: "snd (feed b c) = last (Split (b @ c) nl)"
  using Split_not_Nil[of "b @ c" nl] last_Split_Nil_iff[of "b @ c" nl]
  by (auto simp: feed_def Let_def HasSuffix_nl)

lemma closed_lines_feed: "closed_lines (feed b c) = butlast (Split (b @ c) nl)"
proof (cases "HasSuffix (b @ c) [nl]")
  case True
  then show ?thesis
    using last_Split_Nil_iff[of "b @ c" nl]
    by (simp add: closed_lines_def feed_fst feed_snd HasSuffix_nl)
next
  case False
  show ?thesis
  proof (cases "last (Split (b @ c) nl) = []")
    case True
    with False have "b @ c = []"
      using last_Split_Nil_iff[of "b @ c" nl] by (auto simp: HasSuffix_nl)
    then show ?thesis by (simp add: closed_lines_def feed_fst feed_snd HasSuffix_nl)
  next
    case F2: False
    with False show ?thesis by (simp add: closed_lines_def feed_fst feed_snd)
  qed
qed

lemma feed_conserves: "reinsert (closed_lines (feed b c)) (snd (feed b c)) = b @ c"
  by (simp add: closed_lines_feed feed_snd reinsert_Split)

lemma reinsert_append: "reinsert (xs @ ys) p = reinsert xs (reinsert ys p)"
  by (simp add: reinsert_def)

lemma reinsert_app_right: "reinsert xs (p @ q) = reinsert xs p @ q"
  by (simp add: reinsert_def)

lemma feed_all_Nil_iff: "feed_all b cs = [] \<longleftrightarrow> cs = []"
  by (cases cs) (auto simp: Let_def)

lemma pending_of_Cons: "pending_of b (c # cs) = pending_of (snd (feed b c)) cs"
  by (simp add: pending_of_def Let_def feed_all_Nil_iff)

lemma feed_all_conserves:
  "reinsert (concat (map closed_lines (feed_all b chunks))) (pending_of b chunks) = b @ concat chunks"
proof (induction chunks arbitrary: b)
  case Nil
  show ?case by (simp add: reinsert_def pending_of_def)
next
  case (Cons c cs)
  have "reinsert (concat (map closed_lines (feed_all b (c # cs)))) (pending_of b (c # cs))
      = reinsert (closed_lines (feed b c)) (snd (feed b c) @ concat cs)"
    using Cons.IH[of "snd (feed b c)"]
    by (simp add: Let_def reinsert_append pending_of_Cons)
  also have "\<dots> = (b @ c) @ concat cs"
    by (simp only: reinsert_app_right feed_conserves)
  finally show ?case by simp
qed

lemma Split_no_sep: "sep \<notin> set s \<Longrightarrow> Split s sep = [s]"
  by (induction s) auto

lemma Split_segments_no_sep: "l \<in> set (Split s sep) \<Longrightarrow> sep \<notin> set l"
proof (induction s arbitrary: l)
  case Nil then show ?case by simp
next
  case (Cons c cs)
  obtain a as where sp: "Split cs sep = a # as"
    using Split_not_Nil[of cs sep] by (cases "Split cs sep") auto
  show ?case using Cons sp by (auto split: if_splits)
qed

lemma last_Split_no_sep: "sep \<notin> set (last (Split s sep))"
  using Split_segments_no_sep[of "last (Split s sep)" s sep] Split_not_Nil[of s sep]
  by simp

lemma frames_of_Cons: "frames_of b (c # cs) = fst (feed b c) @ frames_of (snd (feed b c)) cs"
  by (simp add: frames_of_def Let_def)

lemma closed_lines_total:
  "nl \<notin> set b \<Longrightarrow>
     concat (map closed_lines (feed_all b chunks)) = butlast (Split (b @ concat chunks) nl)
   \<and> pending_of b chunks = last (Split (b @ concat chunks) nl)"
proof (induction chunks arbitrary: b)
  case Nil
  then show ?case by (simp add: pending_of_def Split_no_sep)
next
  case (Cons c cs)
  let ?p = "snd (feed b c)"
  have p: "?p = last (Split (b @ c) nl)" by (rule feed_snd)
  have nop: "nl \<notin> set ?p" unfolding p by (rule last_Split_no_sep)
  note IH = Cons.IH[OF nop]
  have sp: "Split ((b @ c) @ concat cs) nl = butlast (Split (b @ c) nl) @ Split (?p @ concat cs) nl"
    unfolding p by (rule Split_append)
  have ne: "Split (?p @ concat cs) nl \<noteq> []" by (rule Split_not_Nil)
  show ?case
    using IH sp ne by (simp add: Let_def closed_lines_feed pending_of_Cons butlast_append)
qed

lemma feed_closed_lines:
  "fst (feed b c) = closed_lines (feed b c) @ (if HasSuffix (b @ c) [nl] then [[]] else [])"
  by (simp add: feed_fst closed_lines_feed)

section \<open>Properties of the stream handler\<close>

lemma add_tool_blocks_eq:
  "add_tool_blocks env n bs calls =
     (bs @ map (\<lambda>(i, c). tool_use_block (''toolu_'' @ generateID env i) (call_Name c) (call_Input c))
            (enumerate n calls),
      n + length calls)"
  by (induction calls arbitrary: n bs) simp_all

lemma upstream_deltas_Nil: "upstream_deltas env [] = []"
  by (simp add: upstream_deltas_def map_filter_simps)

lemma upstream_deltas_Cons:
  "upstream_deltas env (l # ls) =
     (case text_delta_of env l of None \<Rightarrow> upstream_deltas env ls
      | Some d \<Rightarrow> d # upstream_deltas env ls)"
  by (cases "text_delta_of env l") (simp_all add: upstream_deltas_def map_filter_simps)

lemma foldl_on_line:
  "foldl (on_line env) st lines =
     st\<lparr>fullResponse := fullResponse st @ concat (upstream_deltas env lines),
        written := written st @ map (content_block_delta_text 0) (upstream_deltas env lines)\<rparr>"
proof (induction lines arbitrary: st)
  case Nil
  show ?case by (simp add: upstream_deltas_Nil)
next
  case (Cons l ls)
  have "foldl (on_line env) st (l # ls) = foldl (on_line env) (on_line env st l) ls"
    by simp
  also have "\<dots> = (on_line env st l)
      \<lparr>fullResponse := fullResponse (on_line env st l) @ concat (upstream_deltas env ls),
       written := written (on_line env st l)
          @ map (content_block_delta_text 0) (upstream_deltas env ls)\<rparr>"
    by (rule Cons.IH)
  also have "\<dots> = st\<lparr>fullResponse := fullResponse st @ concat (upstream_deltas env (l # ls)),
        written := written st @ map (content_block_delta_text 0) (upstream_deltas env (l # ls))\<rparr>"
    by (cases "text_delta_of env l") (simp_all add: on_line_def upstream_deltas_Cons)
  finally show ?case .
qed

lemma upstream_deltas_append:
  "upstream_deltas env (xs @ ys) = upstream_deltas env xs @ upstream_deltas env ys"
  by (simp add: upstream_deltas_def map_filter_def)

lemma foldl_on_chunk:
  "foldl (on_chunk env) st chunks =
     \<lparr>buffer = pending_of (buffer st) chunks,
      fullResponse = fullResponse st @ concat (upstream_deltas env (frames_of (buffer st) chunks)),
      written = written st
        @ map (content_block_delta_text 0) (upstream_deltas env (frames_of (buffer st) chunks))\<rparr>"
proof (induction chunks arbitrary: st)
  case Nil
  show ?case by (simp add: pending_of_def frames_of_def upstream_deltas_Nil)
next
  case (Cons c cs)
  obtain ls b where f: "feed (buffer st) c = (ls, b)" by (cases "feed (buffer st) c")
  have step: "on_chunk env st c =
      st\<lparr>buffer := b, fullResponse := fullResponse st @ concat (upstream_deltas env ls),
         written := written st @ map (content_block_delta_text 0) (upstream_deltas env ls)\<rparr>"
    by (simp add: on_chunk_def f foldl_on_line)
  show ?case
    using f by (simp add: Cons.IH step frames_of_Cons pending_of_Cons upstream_deltas_append)
qed

lemma AccumulatedText_eq:
  "AccumulatedText env chunks = concat (upstream_deltas env (frames_of [] chunks))"
  by (simp add: AccumulatedText_def foldl_on_chunk stream_start_def)

lemma handleStream_eq:
  "handleStream env chunks err model =
     [message_start (''msg_'' @ generateID env 0) model, content_block_start_text 0]
     @ map (content_block_delta_text 0) (upstream_deltas env (frames_of [] chunks))
     @ (case err of None \<Rightarrow> [] | Some e \<Rightarrow> [error_event e])
     @ [content_block_stop 0]
     @ tool_events env 0 (fst (ParseToolCalls env (AccumulatedText env chunks)))
     @ [message_delta (if fst (ParseToolCalls env (AccumulatedText env chunks)) \<noteq> []
                       then ''tool_use'' else ''end_turn''),
        message_stop]"
proof -
  obtain calls rest where p: "ParseToolCalls env (AccumulatedText env chunks) = (calls, rest)"
    by (cases "ParseToolCalls env (AccumulatedText env chunks)")
  then have p': "ParseToolCalls env (concat (upstream_deltas env (frames_of [] chunks))) = (calls, rest)"
    by (simp add: AccumulatedText_eq)
  show ?thesis
    by (cases calls) (simp_all add: handleStream_def foldl_on_chunk stream_start_def p p' Let_def)
qed

lemma delta_texts_append: "delta_texts i (xs @ ys) = delta_texts i xs @ delta_texts i ys"
  by (induction i xs rule: delta_texts.induct) simp_all

lemma delta_texts_map: "delta_texts i (map (content_block_delta_text i) ds) = ds"
  by (induction ds) simp_all

lemma delta_texts_tool_events: "delta_texts j (tool_events env i calls) = []"
  by (induction calls arbitrary: i) simp_all



lemma stop_reasons_append: "stop_reasons (xs @ ys) = stop_reasons xs @ stop_reasons ys"
  by (induction xs rule: stop_reasons.induct) simp_all


lemma events_of_block_append:
  "events_of_block i (xs @ ys) = events_of_block i xs @ events_of_block i ys"
  by (simp add: events_of_block_def)



lemma stop_reasons_deltas: "stop_reasons (map (content_block_delta_text i) ds) = []"
  by (induction ds) simp_all


lemma events_of_block_deltas:
  "events_of_block j (map (content_block_delta_text i) ds) =
     (if j = i then map (content_block_delta_text i) ds else [])"
  by (induction ds) (simp_all add: events_of_block_def)





lemma stop_reasons_tool_events: "stop_reasons (tool_events env i calls) = []"
  by (induction calls arbitrary: i) simp_all



lemma events_of_block_tool_events_out:
  "j \<le> i \<or> Suc i + length calls \<le> j \<Longrightarrow> events_of_block j (tool_events env i calls) = []"
  by (induction calls arbitrary: i) (auto simp: events_of_block_def)


lemma list_ex_tool_start_tool_events:
  "list_ex is_tool_start (tool_events env i calls) \<longleftrightarrow> calls \<noteq> []"
  by (cases calls) simp_all

lemma list_ex_tool_start_deltas:
  "\<not> list_ex is_tool_start (map (content_block_delta_text i) ds)"
  by (induction ds) simp_all



lemma events_of_block_Nil: "events_of_block i [] = []"
  by (simp add: events_of_block_def)

lemma events_of_block_Cons:
  "events_of_block i (e # evs) =
     (if block_index e = Some i then e # events_of_block i evs else events_of_block i evs)"
  by (simp add: events_of_block_def)


lemma set_triples: "set (concat (map (\<lambda>j. [j, j, j]) [a..<b])) = {a..<b}"
  by auto

lemma text_delta_of_explicit:
  "text_delta_of env frame =
     (if take 6 frame = ''data: '' \<and> drop 6 frame \<noteq> []
      then (case Unmarshal env (drop 6 frame) of None \<Rightarrow> None
            | Some e \<Rightarrow> if event_Type e = ''text-delta'' \<and> Delta e \<noteq> [] then Some (Delta e)
                        else None)
      else None)"
proof -
  have l: "length ''data: '' = 6" by simp
  show ?thesis
    unfolding text_delta_of_def HasPrefix_def TrimPrefix_def l by (simp add: Let_def)
qed

lemma upstream_deltas_explicit:
  "upstream_deltas env frames
     = [Delta e. frame \<leftarrow> frames, take 6 frame = ''data: '', drop 6 frame \<noteq> [],
          e \<leftarrow> (case Unmarshal env (drop 6 frame) of None \<Rightarrow> [] | Some e \<Rightarrow> [e]),
          event_Type e = ''text-delta'', Delta e \<noteq> []]"
proof (induction frames)
  case Nil
  show ?case by (simp add: upstream_deltas_Nil)
next
  case (Cons f fs)
  show ?case
    by (cases "Unmarshal env (drop 6 f)")
       (simp_all add: upstream_deltas_Cons Cons.IH text_delta_of_explicit)
qed

lemma concat_text_deltas:
  "concat [Delta e. frame \<leftarrow> frames, take 6 frame = ''data: '', drop 6 frame \<noteq> [],
          e \<leftarrow> (case Unmarshal env (drop 6 frame) of None \<Rightarrow> [] | Some e \<Rightarrow> [e]),
          event_Type e = ''text-delta'']
   = concat (upstream_deltas env frames)"
proof (induction frames)
  case Nil
  show ?case by (simp add: upstream_deltas_Nil)
next
  case (Cons f fs)
  show ?case
    using Cons.IH
    by (cases "Unmarshal env (drop 6 f)")
       (simp_all add: upstream_deltas_Cons text_delta_of_explicit)
qed

lemma events_of_block_0_stream:
  "events_of_block 0 (handleStream env chunks err model)
     = content_block_start_text 0
       # map (content_block_delta_text 0) (upstream_deltas env (frames_of [] chunks))
       @ [content_block_stop 0]"
proof -
  have out: "events_of_block 0 (tool_events env 0 calls) = []" for calls
    by (rule events_of_block_tool_events_out) simp
  show ?thesis
    by (cases err)
       (simp_all add: handleStream_eq events_of_block_append events_of_block_deltas out
          events_of_block_Nil events_of_block_Cons)
qed

lemma stop_reasons_stream:
  "stop_reasons (handleStream env chunks err model)
     = [if fst (ParseToolCalls env (AccumulatedText env chunks)) = [] then ''end_turn''
        else ''tool_use'']"
  by (cases err)
     (simp_all add: handleStream_eq stop_reasons_append stop_reasons_deltas
        stop_reasons_tool_events)

lemma stream_frames:
  "frames_of [] stream_chunks =
     [''data: '' @ part1_payload, '': keep-alive'', ''data: '', ''data: not json'',
      ''data: '' @ empty_delta_payload, [], ''data: '' @ reasoning_payload, [],
      ''data: '' @ part2_payload, ''data: '' @ finish_payload, []]"
  by (simp add: frames_of_def stream_chunks_def feed_def HasSuffix_def nl_def Let_def
      part1_payload_def empty_delta_payload_def reasoning_payload_def part2_payload_def
      finish_payload_def)

section \<open>Properties of the block constructors\<close>

lemma HasPrefix_Nil: "HasPrefix s [] = True"
  by (simp add: HasPrefix_def)

lemma HasPrefix_Nil_Cons: "HasPrefix [] (d # ds) = False"
  by (simp add: HasPrefix_def)

lemma HasPrefix_Cons_Cons: "HasPrefix (c # cs) (d # ds) = (c = d \<and> HasPrefix cs ds)"
  by (auto simp: HasPrefix_def)

lemmas HasPrefix_eval = HasPrefix_Nil HasPrefix_Nil_Cons HasPrefix_Cons_Cons

lemma any_pattern_iff:
  "any_pattern lower rl ps = list_ex (\<lambda>p. Contains rl (ToLower lower p)) ps"
  by (induction ps) simp_all

lemma DetectRefusal_iff:
  "DetectRefusal lower t
     = list_ex (\<lambda>p. Contains (ToLower lower t) (ToLower lower p)) refusalPatterns"
  by (simp add: DetectRefusal_def any_pattern_iff)

lemma DetectRefusal_I:
  "p \<in> set refusalPatterns \<Longrightarrow> Contains (ToLower lower t) (ToLower lower p)
     \<Longrightarrow> DetectRefusal lower t"
  by (auto simp: DetectRefusal_iff list_ex_iff)

lemma stopReason_of_eq:
  "stopReason_of bs = (if list_ex (\<lambda>b. Type b = ''tool_use'') bs then ''tool_use'' else ''end_turn'')"
  by (induction bs) simp_all

lemma parse_recovery:
  assumes "fst (ParseToolCalls env text) = []"
    and "DetectRefusal (unicode_ToLower env) text"
    and "ExtractCommandFromRefusal text \<noteq> []"
  shows "parseResponseToBlocks env n text um =
     \<lparr>blocks = [text_block notice_text,
                tool_use_block (''toolu_'' @ generateID env n) ''bash''
                   [''command'' \<mapsto> JString (ExtractCommandFromRefusal text)],
                text_block (result_text
                   (case Execute env ''bash'' [''command'' \<mapsto> JString (ExtractCommandFromRefusal text)]
                    of Inl e \<Rightarrow> failure_marker | Inr out \<Rightarrow> success_marker)
                   (case Execute env ''bash'' [''command'' \<mapsto> JString (ExtractCommandFromRefusal text)]
                    of Inl e \<Rightarrow> e | Inr out \<Rightarrow> out))],
      executed = [(''bash'', [''command'' \<mapsto> JString (ExtractCommandFromRefusal text)])],
      drawn = Suc n\<rparr>"
proof -
  obtain calls rest where p: "ParseToolCalls env text = (calls, rest)"
    by (cases "ParseToolCalls env text")
  with assms(1) have c: "calls = []" by simp
  show ?thesis
    using assms(2,3)
    by (cases "Execute env ''bash'' [''command'' \<mapsto> JString (ExtractCommandFromRefusal text)]")
       (simp_all add: parseResponseToBlocks_def p c Let_def)
qed

lemma parse_plain:
  assumes "\<not> (fst (ParseToolCalls env text) = [] \<and> DetectRefusal (unicode_ToLower env) text
              \<and> ExtractCommandFromRefusal text \<noteq> [])"
  shows "parseResponseToBlocks env n text um =
     \<lparr>blocks =
        (if snd (ParseToolCalls env text) \<noteq> [] then [text_block (snd (ParseToolCalls env text))]
         else if fst (ParseToolCalls env text) = [] then [text_block text] else [])
        @ tool_blocks_from env n (fst (ParseToolCalls env text)),
      executed = [],
      drawn = n + length (fst (ParseToolCalls env text))\<rparr>"
proof -
  obtain calls rest where p: "ParseToolCalls env text = (calls, rest)"
    by (cases "ParseToolCalls env text")
  show ?thesis
    using assms
    by (cases calls)
       (auto simp: parseResponseToBlocks_def p Let_def add_tool_blocks_eq tool_blocks_from_def)
qed

lemma text_block_simps:
  "Type (text_block t) = ''text''" "Text (text_block t) = t"
  by (simp_all add: text_block_def)

lemma tool_use_block_simps:
  "Type (tool_use_block i n inp) = ''tool_use''" "Name (tool_use_block i n inp) = n"
  "Input (tool_use_block i n inp) = inp"
  by (simp_all add: tool_use_block_def)

lemma list_ex_tool_blocks_from:
  "list_ex (\<lambda>b. Type b = ''tool_use'') (tool_blocks_from env n calls) \<longleftrightarrow> calls \<noteq> []"
  by (cases calls) (simp_all add: tool_blocks_from_def tool_use_block_simps)

lemma handleNonStream_Inr:
  "handleNonStream env (Inr result) model =
     (OK \<lparr>resp_ID = ''msg_'' @ generateID env
               (drawn (parseResponseToBlocks env 0 (fullText_of env [] (Split result nl)) [])),
          resp_Type = ''message'', Role = ''assistant'',
          Content = blocks (parseResponseToBlocks env 0 (fullText_of env [] (Split result nl)) []),
          Model = model,
          StopReason = stopReason_of
             (blocks (parseResponseToBlocks env 0 (fullText_of env [] (Split result nl)) [])),
          InputTokens = 100, OutputTokens = 100\<rparr>,
      executed (parseResponseToBlocks env 0 (fullText_of env [] (Split result nl)) []))"
  by (simp add: handleNonStream_def Let_def)

lemma list_ex_tool_use_blocks:
  "list_ex (\<lambda>b. Type b = ''tool_use'') (blocks (parseResponseToBlocks env n text um))
     \<longleftrightarrow> fst (ParseToolCalls env text) \<noteq> [] \<or> recovers env text"
proof (cases "recovers env text")
  case True
  then show ?thesis
    using parse_recovery[of env "text" n um]
    by (simp add: recovers_def text_block_simps tool_use_block_simps)
next
  case False
  then have np: "\<not> (fst (ParseToolCalls env text) = [] \<and> DetectRefusal (unicode_ToLower env) text
              \<and> ExtractCommandFromRefusal text \<noteq> [])"
    by (simp add: recovers_def)
  show ?thesis
    using False
    by (simp add: parse_plain[OF np] list_ex_tool_blocks_from text_block_simps)
qed

lemmas lower_eval = ToLower_def isASCII_def ascii_lower_def byte_def char_of_def bit_Suc_0_iff

lemma ex_extract: "ExtractCommandFromRefusal refusal_text = ''ls -la''"
  by (simp add: refusal_text_def ExtractCommandFromRefusal_def FindStringSubmatch_def codeBlockRe_def
      nl_def slice_def Let_def is_space_def TrimSpace_def DecodeRuneInString_def seq_size_def accept_lo_def accept_hi_def
      DecodeLastRuneInString_def IsSpace_def byte_def)

lemma ex_refusal: "DetectRefusal lower refusal_text"
proof (rule DetectRefusal_I)
  show "''I can'' @ [CHR 0x27] @ ''t'' \<in> set refusalPatterns"
    by (simp add: refusalPatterns_def)
  show "Contains (ToLower lower refusal_text) (ToLower lower (''I can'' @ [CHR 0x27] @ ''t''))"
    by (simp add: refusal_text_def lower_eval HasPrefix_eval)
qed

lemma lowered_refusalPatterns:
  "map (ToLower lower_ascii_only) refusalPatterns =
     map (\<lambda>p. if p = ''I can'' @ [CHR 0x27] @ ''t'' then ''i can'' @ [CHR 0x27] @ ''t'' else p)
       refusalPatterns"
  by (simp add: refusalPatterns_def lower_eval Map_def DecodeRuneInString_def seq_size_def accept_lo_def accept_hi_def
      lower_ascii_only_def EncodeRune_def encode3_def Let_def)

lemma DetectRefusal_ascii_only:
  "DetectRefusal lower_ascii_only t
     = list_ex (Contains (ToLower lower_ascii_only t))
         (map (\<lambda>p. if p = ''I can'' @ [CHR 0x27] @ ''t'' then ''i can'' @ [CHR 0x27] @ ''t'' else p)
            refusalPatterns)"
  unfolding lowered_refusalPatterns[symmetric]
  by (simp add: DetectRefusal_iff list_ex_iff)

lemma hello_not_refusal: "\<not> DetectRefusal lower_ascii_only ''Hello''"
  by (simp add: DetectRefusal_ascii_only refusalPatterns_def lower_eval HasPrefix_eval)

lemma empty_not_refusal: "\<not> DetectRefusal lower_ascii_only []"
  by (simp add: DetectRefusal_ascii_only refusalPatterns_def lower_eval HasPrefix_eval)

lemma example_env_simps:
  "ParseToolCalls example_env t = ([], t)"
  "Execute example_env name inp = Inr ''total 0''"
  "generateID example_env n = replicate n (CHR ''a'')"
  "Unmarshal example_env = example_Unmarshal"
  "Marshal example_env inp = ''{}''"
  "unicode_ToLower example_env = lower_ascii_only"
  by (simp_all add: example_env_def)

lemma failing_env_simps:
  "ParseToolCalls failing_env t = ([], t)"
  "Execute failing_env name inp = Inl ''exit status 2''"
  "generateID failing_env n = replicate n (CHR ''a'')"
  "Unmarshal failing_env = example_Unmarshal"
  "Marshal failing_env inp = ''{}''"
  "unicode_ToLower failing_env = lower_ascii_only"
  by (simp_all add: failing_env_def example_env_def)

lemma tool_env_simps:
  "ParseToolCalls tool_env t = ([ToolCall ''read_file'' Map.empty], [])"
  "Execute tool_env name inp = Inr ''total 0''"
  "generateID tool_env n = replicate n (CHR ''a'')"
  "Unmarshal tool_env = example_Unmarshal"
  "Marshal tool_env inp = ''{}''"
  "unicode_ToLower tool_env = lower_ascii_only"
  by (simp_all add: tool_env_def example_env_def)

lemma ex_recovers: "recovers example_env refusal_text" "recovers failing_env refusal_text"
  by (simp_all add: recovers_def example_env_simps failing_env_simps ex_refusal ex_extract)

lemma delta_jsons_append: "delta_jsons i (xs @ ys) = delta_jsons i xs @ delta_jsons i ys"
  by (induction i xs rule: delta_jsons.induct) simp_all

lemma delta_jsons_deltas: "delta_jsons j (map (content_block_delta_text i) ds) = []"
  by (induction ds) simp_all

lemma delta_jsons_tool_events_out:
  "j \<le> i \<or> Suc i + length calls \<le> j \<Longrightarrow> delta_jsons j (tool_events env i calls) = []"
  by (induction calls arbitrary: i) auto

lemma delta_jsons_tool_events_in:
  "k < length calls \<Longrightarrow>
     delta_jsons (Suc i + k) (tool_events env i calls)
       = [escapeJSON (Marshal env (call_Input (calls ! k)))]"
proof (induction calls arbitrary: i k)
  case Nil
  then show ?case by simp
next
  case (Cons c cs)
  show ?case
  proof (cases k)
    case 0
    have "delta_jsons (Suc i) (tool_events env (Suc i) cs) = []"
      by (rule delta_jsons_tool_events_out) simp
    with 0 show ?thesis by simp
  next
    case (Suc k')
    with Cons.prems have "k' < length cs" by simp
    from Cons.IH[OF this, of "Suc i"] Suc show ?thesis by simp
  qed
qed

lemma started_blocks_append:
  "started_blocks all (xs @ ys) = started_blocks all xs @ started_blocks all ys"
  by (induction all xs rule: started_blocks.induct) simp_all

lemma started_blocks_deltas: "started_blocks all (map (content_block_delta_text i) ds) = []"
  by (induction ds) simp_all

lemma started_blocks_tool_events:
  "started_blocks all (tool_events env i calls)
     = map (\<lambda>(j, c). tool_use_view (call_Name c) (concat (delta_jsons (Suc j) all)))
         (enumerate i calls)"
  by (induction calls arbitrary: i) simp_all

lemma delta_jsons_handleStream:
  assumes "k < length (fst (ParseToolCalls env (AccumulatedText env chunks)))"
  shows "delta_jsons (Suc k) (handleStream env chunks err model)
     = [escapeJSON (Marshal env
          (call_Input (fst (ParseToolCalls env (AccumulatedText env chunks)) ! k)))]"
  using delta_jsons_tool_events_in[OF assms, of 0 env]
  by (cases err) (simp_all add: handleStream_eq delta_jsons_append delta_jsons_deltas)

lemma stream_blocks_eq:
  "stream_blocks (handleStream env chunks err model)
     = text_view (AccumulatedText env chunks)
       # map (tool_view env) (fst (ParseToolCalls env (AccumulatedText env chunks)))"
proof -
  let ?evs = "handleStream env chunks err model"
  let ?calls = "fst (ParseToolCalls env (AccumulatedText env chunks))"
  have t: "concat (delta_texts 0 ?evs) = AccumulatedText env chunks"
    by (cases err)
       (simp_all add: handleStream_eq delta_texts_append delta_texts_map delta_texts_tool_events
          AccumulatedText_eq)
  have m: "map (\<lambda>(j, c). tool_use_view (call_Name c) (concat (delta_jsons (Suc j) ?evs)))
         (enumerate 0 ?calls) = map (tool_view env) ?calls"
    by (rule nth_equalityI)
       (simp_all add: nth_enumerate_eq delta_jsons_handleStream tool_view_def)
  have "started_blocks ?evs ?evs = text_view (concat (delta_texts 0 ?evs))
      # map (\<lambda>(j, c). tool_use_view (call_Name c) (concat (delta_jsons (Suc j) ?evs)))
         (enumerate 0 ?calls)"
    by (subst (2) handleStream_eq, cases err)
       (simp_all add: started_blocks_append started_blocks_deltas started_blocks_tool_events)
  then show ?thesis
    by (simp add: stream_blocks_def t m)
qed

lemma view_text_block: "view_of_block env (text_block t) = text_view t"
  by (simp add: view_of_block_def text_block_def)

lemma view_tool_blocks_from:
  "map (view_of_block env) (tool_blocks_from env n calls) = map (tool_view env) calls"
  by (rule nth_equalityI)
     (simp_all add: tool_blocks_from_def nth_enumerate_eq view_of_block_def tool_use_block_def
        tool_view_def)

lemma filter_tool_views: "filter is_tool_view (map (tool_view env) calls) = map (tool_view env) calls"
  by (induction calls) (simp_all add: tool_view_def)

lemma non_stream_views:
  assumes "\<not> recovers env text"
  shows "map (view_of_block env) (blocks (parseResponseToBlocks env n text um))
     = (if snd (ParseToolCalls env text) \<noteq> [] then [text_view (snd (ParseToolCalls env text))]
        else if fst (ParseToolCalls env text) = [] then [text_view text] else [])
       @ map (tool_view env) (fst (ParseToolCalls env text))"
proof -
  from assms have np: "\<not> (fst (ParseToolCalls env text) = []
      \<and> DetectRefusal (unicode_ToLower env) text \<and> ExtractCommandFromRefusal text \<noteq> [])"
    by (simp add: recovers_def)
  show ?thesis
    by (simp add: parse_plain[OF np] view_tool_blocks_from view_text_block)
qed

lemma hello_frames: "frames_of [] hello_chunks = [''data: '' @ hello_payload, []]"
  by (simp add: frames_of_def hello_chunks_def hello_payload_def feed_def HasSuffix_def nl_def)

lemma refusal_frames: "frames_of [] refusal_chunks = [''data: '' @ refusal_payload, []]"
  by (simp add: frames_of_def refusal_chunks_def refusal_payload_def feed_def HasSuffix_def nl_def)

lemma example_text_deltas:
  "Unmarshal env = example_Unmarshal \<Longrightarrow>
     text_delta_of env (''data: '' @ hello_payload) = Some ''Hello''"
  "Unmarshal env = example_Unmarshal \<Longrightarrow>
     text_delta_of env (''data: '' @ refusal_payload) = Some refusal_text"
  "text_delta_of env [] = None"
  by (simp_all add: text_delta_of_def HasPrefix_def TrimPrefix_def
        example_Unmarshal_def hello_payload_def refusal_payload_def refusal_text_def)

lemma hello_text:
  "Unmarshal env = example_Unmarshal \<Longrightarrow> AccumulatedText env hello_chunks = ''Hello''"
  using example_text_deltas(1,3)[of env]
  by (simp add: AccumulatedText_eq hello_frames upstream_deltas_Cons upstream_deltas_Nil)

lemma refusal_text_accumulated:
  "Unmarshal env = example_Unmarshal \<Longrightarrow> AccumulatedText env refusal_chunks = refusal_text"
  using example_text_deltas(2,3)[of env]
  by (simp add: AccumulatedText_eq refusal_frames upstream_deltas_Cons upstream_deltas_Nil)

lemma view_tool_use_block:
  "view_of_block env (tool_use_block i n inp) = tool_use_view n (escapeJSON (Marshal env inp))"
  by (simp add: view_of_block_def tool_use_block_def)

lemma escapeJSON_braces: "escapeJSON ''{}'' = ''{}''"
  by (simp add: escapeJSON_def ReplaceAll_def)

lemma markers_differ: "success_marker \<noteq> failure_marker"
  by (simp add: success_marker_def failure_marker_def)

lemma hello_nl_not_refusal: "\<not> DetectRefusal lower_ascii_only (''Hello'' @ [nl])"
  by (simp add: DetectRefusal_ascii_only refusalPatterns_def lower_eval HasPrefix_eval nl_def)

lemma TrimSpace_hello: "TrimSpace (''Hello'' @ [nl]) = ''Hello''"
  by (simp add: nl_def TrimSpace_def DecodeRuneInString_def seq_size_def accept_lo_def accept_hi_def
      DecodeLastRuneInString_def IsSpace_def byte_def Let_def)

section \<open>Properties of the intent classifier\<close>

lemma scan_patterns_eq:
  "scan_patterns ps t a A = (if list_ex (\<lambda>p. MatchString p t) ps then a else A)"
  by (induction ps) simp_all

lemmas match_eval = MatchString_def nl_def is_space_def Let_def

lemma lowered1:
  "ToLower lower (Join [''Create a file'', ''and run the command''] '' '')
     = ''create a file and run the command''"
  by (simp add: lower_eval)

lemma lowered2:
  "ToLower lower (Join [''Please READ'', ''the file''] '' '') = ''please read the file''"
  by (simp add: lower_eval)

section \<open>Properties of the UTF-8 functions and of ToLower\<close>

lemma byte_char_of: "n < 256 \<Longrightarrow> byte (char_of n) = n"
  by (simp add: byte_def)

lemma mod64_not_le: "\<not> 64 \<le> (n::nat) mod 64"
  by (simp add: not_le)

lemma encode3_shape: "r \<le> 0xFFFF \<Longrightarrow> enc_like (encode3 r)"
proof -
  assume r: "r \<le> 0xFFFF"
  have a: "0xE0 + r div 0x1000 < 256" "0xE0 \<le> 0xE0 + r div 0x1000" "0xE0 + r div 0x1000 < 0xF0"
    using r by simp_all
  have b: "0x80 + (r div 0x40) mod 0x40 < 0xC0" "0x80 + r mod 0x40 < 0xC0"
    by simp_all
  show ?thesis
    using a b
    by (simp add: enc_like_def encode3_def RuneStart_def width_of_def byte_char_of mod64_not_le)
qed

lemma EncodeRune_shape: "enc_like (EncodeRune r)"
proof -
  consider "r \<le> 0x7F" | "0x7F < r" "r \<le> 0x7FF"
    | "0x7FF < r" "0x10FFFF < r \<or> (0xD800 \<le> r \<and> r \<le> 0xDFFF)"
    | "0x7FF < r" "r \<le> 0xFFFF" "\<not> (0x10FFFF < r \<or> (0xD800 \<le> r \<and> r \<le> 0xDFFF))"
    | "0xFFFF < r" "r \<le> 0x10FFFF"
    by linarith
  then show ?thesis
  proof cases
    case 1
    then show ?thesis
      by (simp add: EncodeRune_def enc_like_def RuneStart_def width_of_def byte_char_of mod64_not_le)
  next
    case 2
    then have a: "0xC0 + r div 0x40 < 256" "0xC0 + r div 0x40 < 0xE0" "0x80 + r mod 0x40 < 0xC0"
      by simp_all
    from 2 a show ?thesis
      by (simp add: EncodeRune_def enc_like_def RuneStart_def width_of_def byte_char_of mod64_not_le)
  next
    case 3
    then show ?thesis
      using encode3_shape[of RuneError] by (auto simp: EncodeRune_def RuneError_def)
  next
    case 4
    then show ?thesis
      using encode3_shape[of r] by (auto simp: EncodeRune_def)
  next
    case 5
    then have a: "0xF0 + r div 0x40000 < 256" "0x80 + (r div 0x1000) mod 0x40 < 0xC0"
      "0x80 + (r div 0x40) mod 0x40 < 0xC0" "0x80 + r mod 0x40 < 0xC0"
      by simp_all
    from 5 a show ?thesis
      by (simp add: EncodeRune_def enc_like_def RuneStart_def width_of_def byte_char_of mod64_not_le)
  qed
qed

lemma enc_like_cancel:
  assumes "enc_like p" "enc_like c" "p @ x = c @ y"
  shows "p = c \<and> x = y"
proof -
  from assms have "hd p = hd c"
    by (cases p; cases c) (auto simp: enc_like_def)
  with assms(1,2) have "length p = length c"
    by (simp add: enc_like_def)
  with assms(3) show ?thesis by simp
qed

lemma prefix_align:
  "list_all enc_like ps \<Longrightarrow> list_all enc_like cs \<Longrightarrow> prefix (concat ps) (concat cs)
     \<Longrightarrow> \<exists>post. cs = ps @ post"
proof (induction ps arbitrary: cs)
  case Nil
  then show ?case by simp
next
  case (Cons p ps)
  from Cons.prems(3) obtain z where z: "concat cs = p @ concat ps @ z"
    by (auto simp: prefix_def)
  from Cons.prems(1) have p: "enc_like p" and ps: "list_all enc_like ps" by simp_all
  from p have "p \<noteq> []" by (simp add: enc_like_def)
  with z have "cs \<noteq> []" by auto
  then obtain c cs' where cs: "cs = c # cs'" by (cases cs) auto
  with Cons.prems(2) have c: "enc_like c" and cs': "list_all enc_like cs'" by simp_all
  from z cs have "p @ (concat ps @ z) = c @ concat cs'" by simp
  from enc_like_cancel[OF p c this] have pc: "p = c" and r: "concat ps @ z = concat cs'"
    by simp_all
  from r have "prefix (concat ps) (concat cs')" by (metis prefixI)
  from Cons.IH[OF ps cs' this] obtain post where "cs' = ps @ post" by blast
  with cs pc show ?case by simp
qed

lemma infix_align:
  "list_all enc_like ps \<Longrightarrow> list_all enc_like cs \<Longrightarrow> concat cs = a @ concat ps @ b
     \<Longrightarrow> \<exists>pre post. cs = pre @ ps @ post"
proof (induction cs arbitrary: a)
  case Nil
  then have "concat ps = []" by simp
  with Nil.prems(1) have "ps = []"
    by (cases ps) (auto simp: enc_like_def)
  then show ?case by simp
next
  case (Cons c cs)
  show ?case
  proof (cases ps)
    case Nil
    then show ?thesis by (metis append_Nil)
  next
    case ps: (Cons p ps')
    with Cons.prems(1) have p: "enc_like p" by simp
    from Cons.prems(2) have c: "enc_like c" and cs: "list_all enc_like cs" by simp_all
    obtain P' where P: "concat ps = hd p # P'" and hp: "RuneStart (hd p)"
      using p ps by (cases p) (auto simp: enc_like_def)
    from Cons.prems(3) have eq: "c @ concat cs = a @ concat ps @ b" by simp
    then consider u where "c = a @ u" "u @ concat cs = concat ps @ b"
      | u where "c @ u = a" "concat cs = u @ concat ps @ b"
      by (auto simp: append_eq_append_conv2)
    then show ?thesis
    proof cases
      case 1
      show ?thesis
      proof (cases a)
        case Nil
        with eq have "prefix (concat ps) (concat (c # cs))"
          by (simp add: prefix_def)
        from prefix_align[OF Cons.prems(1) Cons.prems(2) this]
        show ?thesis by (metis append_Nil)
      next
        case (Cons x a')
        show ?thesis
        proof (cases u)
          case Nil
          with 1(2) have "concat cs = [] @ concat ps @ b" by simp
          from Cons.IH[OF Cons.prems(1) cs this] obtain pre post where "cs = pre @ ps @ post"
            by blast
          then have "c # cs = (c # pre) @ ps @ post" by simp
          then show ?thesis by blast
        next
          case (Cons y u')
          with 1(2) P have "y = hd p" by simp
          moreover from 1(1) \<open>a = x # a'\<close> Cons have "y \<in> set (tl c)" by simp
          ultimately show ?thesis
            using c hp by (auto simp: enc_like_def list_all_iff)
        qed
      qed
    next
      case 2
      from Cons.IH[OF Cons.prems(1) cs 2(2)] obtain pre post where "cs = pre @ ps @ post"
        by blast
      then have "c # cs = (c # pre) @ ps @ post" by simp
      then show ?thesis by blast
    qed
  qed
qed

lemma seq_size_range: "2 \<le> seq_size s0" "seq_size s0 \<le> 4"
  by (simp_all add: seq_size_def)

lemma accept_range: "0x80 \<le> accept_lo s0" "accept_hi s0 \<le> 0xBF"
  by (simp_all add: accept_lo_def accept_hi_def)

lemma dec_ascii:
  "s \<noteq> [] \<Longrightarrow> byte (s ! 0) < 0x80 \<Longrightarrow> DecodeRuneInString s = (byte (s ! 0), 1)"
  by (simp add: DecodeRuneInString_def)

lemma dec2:
  "0xC2 \<le> byte (s ! 0) \<Longrightarrow> byte (s ! 0) \<le> 0xF4 \<Longrightarrow> seq_size (byte (s ! 0)) = 2
   \<Longrightarrow> 2 \<le> length s \<Longrightarrow> accept_lo (byte (s ! 0)) \<le> byte (s ! 1)
   \<Longrightarrow> byte (s ! 1) \<le> accept_hi (byte (s ! 0))
   \<Longrightarrow> DecodeRuneInString s = ((byte (s ! 0) mod 0x20) * 0x40 + byte (s ! 1) mod 0x40, 2)"
  by (cases s) (auto simp: DecodeRuneInString_def Let_def)

lemma dec3:
  "0xC2 \<le> byte (s ! 0) \<Longrightarrow> byte (s ! 0) \<le> 0xF4 \<Longrightarrow> seq_size (byte (s ! 0)) = 3
   \<Longrightarrow> 3 \<le> length s \<Longrightarrow> accept_lo (byte (s ! 0)) \<le> byte (s ! 1)
   \<Longrightarrow> byte (s ! 1) \<le> accept_hi (byte (s ! 0))
   \<Longrightarrow> 0x80 \<le> byte (s ! 2) \<Longrightarrow> byte (s ! 2) \<le> 0xBF
   \<Longrightarrow> DecodeRuneInString s
       = ((byte (s ! 0) mod 0x10) * 0x1000 + (byte (s ! 1) mod 0x40) * 0x40
            + byte (s ! 2) mod 0x40, 3)"
  by (cases s) (auto simp: DecodeRuneInString_def Let_def)

lemma dec4:
  "0xC2 \<le> byte (s ! 0) \<Longrightarrow> byte (s ! 0) \<le> 0xF4 \<Longrightarrow> seq_size (byte (s ! 0)) = 4
   \<Longrightarrow> 4 \<le> length s \<Longrightarrow> accept_lo (byte (s ! 0)) \<le> byte (s ! 1)
   \<Longrightarrow> byte (s ! 1) \<le> accept_hi (byte (s ! 0))
   \<Longrightarrow> 0x80 \<le> byte (s ! 2) \<Longrightarrow> byte (s ! 2) \<le> 0xBF
   \<Longrightarrow> 0x80 \<le> byte (s ! 3) \<Longrightarrow> byte (s ! 3) \<le> 0xBF
   \<Longrightarrow> DecodeRuneInString s
       = ((byte (s ! 0) mod 8) * 0x40000 + (byte (s ! 1) mod 0x40) * 0x1000
            + (byte (s ! 2) mod 0x40) * 0x40 + byte (s ! 3) mod 0x40, 4)"
  by (cases s) (auto simp: DecodeRuneInString_def Let_def)

lemma dec_sound:
  assumes "sound_at s w"
  shows "snd (DecodeRuneInString s) = w"
proof -
  from assms seq_size_range[of "byte (s ! 0)"] have "w = 2 \<or> w = 3 \<or> w = 4"
    by (auto simp: sound_at_def)
  then show ?thesis
    using assms dec2[of s] dec3[of s] dec4[of s]
    by (auto simp: sound_at_def)
qed

lemma dec_cases:
  assumes "s \<noteq> []"
  obtains (ascii) "byte (s ! 0) < 0x80" "DecodeRuneInString s = (byte (s ! 0), 1)"
  | (bad) "DecodeRuneInString s = (RuneError, 1)"
  | (multi) w where "sound_at s w" "snd (DecodeRuneInString s) = w"
proof (cases "byte (s ! 0) < 0x80")
  case True
  with assms show ?thesis using ascii dec_ascii by blast
next
  case a: False
  show ?thesis
  proof (cases "byte (s ! 0) < 0xC2 \<or> 0xF4 < byte (s ! 0)")
    case True
    with a assms have "DecodeRuneInString s = (RuneError, 1)"
      by (simp add: DecodeRuneInString_def)
    then show ?thesis by (rule bad)
  next
    case b: False
    show ?thesis
    proof (cases "length s < seq_size (byte (s ! 0))")
      case True
      with a b assms have "DecodeRuneInString s = (RuneError, 1)"
        by (simp add: DecodeRuneInString_def Let_def)
      then show ?thesis by (rule bad)
    next
      case c: False
      show ?thesis
      proof (cases "byte (s ! 1) < accept_lo (byte (s ! 0)) \<or> accept_hi (byte (s ! 0)) < byte (s ! 1)")
        case True
        with a b c assms have "DecodeRuneInString s = (RuneError, 1)"
          by (simp add: DecodeRuneInString_def Let_def)
        then show ?thesis by (rule bad)
      next
        case d: False
        show ?thesis
        proof (cases "seq_size (byte (s ! 0)) \<le> 2")
          case True
          with seq_size_range(1)[of "byte (s ! 0)"] have "seq_size (byte (s ! 0)) = 2" by simp
          with b c d have "sound_at s 2" by (simp add: sound_at_def)
          then show ?thesis using multi dec_sound by blast
        next
          case e: False
          show ?thesis
          proof (cases "byte (s ! 2) < 0x80 \<or> 0xBF < byte (s ! 2)")
            case True
            with a b c d e assms have "DecodeRuneInString s = (RuneError, 1)"
              by (simp add: DecodeRuneInString_def Let_def)
            then show ?thesis by (rule bad)
          next
            case f: False
            show ?thesis
            proof (cases "seq_size (byte (s ! 0)) \<le> 3")
              case True
              with e have "seq_size (byte (s ! 0)) = 3" by simp
              with b c d f have "sound_at s 3" by (simp add: sound_at_def)
              then show ?thesis using multi dec_sound by blast
            next
              case g: False
              show ?thesis
              proof (cases "byte (s ! 3) < 0x80 \<or> 0xBF < byte (s ! 3)")
                case True
                with a b c d e f g assms have "DecodeRuneInString s = (RuneError, 1)"
                  by (simp add: DecodeRuneInString_def Let_def)
                then show ?thesis by (rule bad)
              next
                case h: False
                from g seq_size_range(2)[of "byte (s ! 0)"] have "seq_size (byte (s ! 0)) = 4"
                  by simp
                with b c d f h have "sound_at s 4" by (simp add: sound_at_def)
                then show ?thesis using multi dec_sound by blast
              qed
            qed
          qed
        qed
      qed
    qed
  qed
qed

lemma dec_width:
  assumes "s \<noteq> []"
  shows "1 \<le> snd (DecodeRuneInString s) \<and> snd (DecodeRuneInString s) \<le> length s"
  using assms
proof (cases s rule: dec_cases)
  case multi
  then show ?thesis
    using seq_size_range[of "byte (s ! 0)"] by (auto simp: sound_at_def)
qed (use assms in \<open>auto simp: Suc_le_eq\<close>)

lemma dec_inner_bytes:
  assumes "s \<noteq> []" "1 \<le> i" "i < snd (DecodeRuneInString s)"
  shows "\<not> RuneStart (s ! i)"
  using assms(1)
proof (cases s rule: dec_cases)
  case (multi w)
  with assms seq_size_range[of "byte (s ! 0)"] have "i = 1 \<or> i = 2 \<or> i = 3" "i < w"
    by (auto simp: sound_at_def)
  with multi(1) accept_range[of "byte (s ! 0)"] show ?thesis
    by (auto simp: sound_at_def RuneStart_def split: if_splits)
qed (use assms in auto)

lemma dec_valid_head:
  assumes "s \<noteq> []" "fst (DecodeRuneInString s) \<noteq> RuneError"
  shows "RuneStart (hd s)"
  using assms(1)
proof (cases s rule: dec_cases)
  case ascii
  with assms(1) show ?thesis by (cases s) (auto simp: RuneStart_def)
next
  case bad
  with assms(2) show ?thesis by simp
next
  case (multi w)
  with assms(1) show ?thesis by (cases s) (auto simp: RuneStart_def sound_at_def)
qed

lemma dec_sound_eq:
  assumes "sound_at s w" "sound_at t w" "\<forall>i<w. t ! i = s ! i"
  shows "DecodeRuneInString t = DecodeRuneInString s"
proof -
  from assms(1) seq_size_range[of "byte (s ! 0)"] have "w = 2 \<or> w = 3 \<or> w = 4"
    by (auto simp: sound_at_def)
  then show ?thesis
  proof (elim disjE)
    assume w: "w = 2"
    with assms(3) have e: "t ! 0 = s ! 0" "t ! 1 = s ! 1" by simp_all
    from assms(1,2) w have "DecodeRuneInString s
        = ((byte (s ! 0) mod 0x20) * 0x40 + byte (s ! 1) mod 0x40, 2)"
      "DecodeRuneInString t = ((byte (t ! 0) mod 0x20) * 0x40 + byte (t ! 1) mod 0x40, 2)"
      by (simp_all add: sound_at_def dec2)
    with e show ?thesis by simp
  next
    assume w: "w = 3"
    with assms(3) have e: "t ! 0 = s ! 0" "t ! 1 = s ! 1" "t ! 2 = s ! 2" by simp_all
    from assms(1,2) w have "DecodeRuneInString s
        = ((byte (s ! 0) mod 0x10) * 0x1000 + (byte (s ! 1) mod 0x40) * 0x40
            + byte (s ! 2) mod 0x40, 3)"
      "DecodeRuneInString t
        = ((byte (t ! 0) mod 0x10) * 0x1000 + (byte (t ! 1) mod 0x40) * 0x40
            + byte (t ! 2) mod 0x40, 3)"
      by (simp_all add: sound_at_def dec3)
    with e show ?thesis by simp
  next
    assume w: "w = 4"
    with assms(3) have e: "t ! 0 = s ! 0" "t ! 1 = s ! 1" "t ! 2 = s ! 2" "t ! 3 = s ! 3"
      by simp_all
    from assms(1,2) w have "DecodeRuneInString s
        = ((byte (s ! 0) mod 8) * 0x40000 + (byte (s ! 1) mod 0x40) * 0x1000
            + (byte (s ! 2) mod 0x40) * 0x40 + byte (s ! 3) mod 0x40, 4)"
      "DecodeRuneInString t
        = ((byte (t ! 0) mod 8) * 0x40000 + (byte (t ! 1) mod 0x40) * 0x1000
            + (byte (t ! 2) mod 0x40) * 0x40 + byte (t ! 3) mod 0x40, 4)"
      by (simp_all add: sound_at_def dec4)
    with e show ?thesis by simp
  qed
qed

lemma sound_at_cong:
  assumes "sound_at s w" "w \<le> length t" "\<forall>i<w. t ! i = s ! i"
  shows "sound_at t w"
proof -
  from assms(1) seq_size_range[of "byte (s ! 0)"] have "w = 2 \<or> w = 3 \<or> w = 4"
    by (auto simp: sound_at_def)
  with assms show ?thesis
    by (auto simp: sound_at_def)
qed

lemma dec_valid_stable:
  assumes "s \<noteq> []" "fst (DecodeRuneInString s) \<noteq> RuneError"
  shows "DecodeRuneInString (take (snd (DecodeRuneInString s)) s @ Y) = DecodeRuneInString s"
  using assms(1)
proof (cases s rule: dec_cases)
  case ascii
  from assms(1) obtain c cs where s: "s = c # cs" by (cases s) auto
  with ascii have "byte c < 0x80" by simp
  then have "DecodeRuneInString (c # Y) = (byte c, 1)"
    using dec_ascii[of "c # Y"] by simp
  with ascii s show ?thesis by simp
next
  case bad
  with assms(2) show ?thesis by simp
next
  case (multi w)
  then have wl: "w \<le> length s" by (simp add: sound_at_def)
  have nth: "\<forall>i<w. (take w s @ Y) ! i = s ! i"
    using wl by (simp add: nth_append)
  have len: "w \<le> length (take w s @ Y)"
    using wl by simp
  from sound_at_cong[OF multi(1) len nth] have "sound_at (take w s @ Y) w" .
  from dec_sound_eq[OF multi(1) this nth] multi(2) show ?thesis by simp
qed

lemma runes_step:
  "s \<noteq> [] \<Longrightarrow> runes s
     = fst (DecodeRuneInString s) # runes (drop (snd (DecodeRuneInString s)) s)"
proof -
  assume ne: "s \<noteq> []"
  then obtain c cs where s: "s = c # cs" by (cases s) auto
  from dec_width[OF ne] obtain k where k: "snd (DecodeRuneInString s) = Suc k"
    by (cases "snd (DecodeRuneInString s)") auto
  with s show ?thesis by simp
qed

text \<open>Decoding picks up again at a byte that can start a rune.\<close>

lemma runes_resync:
  assumes "z \<noteq> []" "RuneStart (hd z)"
  shows "\<exists>pre. runes (x @ z) = pre @ runes z"
proof (induction x rule: length_induct)
  case (1 x)
  show ?case
  proof (cases x)
    case Nil
    then show ?thesis by simp
  next
    case (Cons c cs)
    let ?s = "x @ z"
    let ?w = "snd (DecodeRuneInString ?s)"
    have ne: "?s \<noteq> []" using Cons by simp
    from dec_width[OF ne] have w1: "1 \<le> ?w" by simp
    have "?w \<le> length x"
    proof (rule ccontr)
      assume "\<not> ?w \<le> length x"
      then have "length x < ?w" by simp
      moreover have "1 \<le> length x" using Cons by simp
      ultimately have "\<not> RuneStart (?s ! length x)"
        using dec_inner_bytes[OF ne] by blast
      moreover have "?s ! length x = hd z"
        using assms(1) by (simp add: nth_append hd_conv_nth)
      ultimately show False using assms(2) by simp
    qed
    then have d: "drop ?w ?s = drop ?w x @ z" by simp
    have "length (drop ?w x) < length x" using w1 Cons by simp
    with 1 obtain pre where "runes (drop ?w x @ z) = pre @ runes z" by blast
    with runes_step[OF ne] d show ?thesis by simp
  qed
qed

lemma runes_Nil_iff: "runes s = [] \<longleftrightarrow> s = []"
  by (cases s) simp_all

text \<open>A run of runes without \<open>RuneError\<close> at the head of a string is a block of well-formed
  sequences, which decodes the same way whatever follows it.\<close>

lemma runes_block_head:
  assumes "runes t = rm @ r2" "RuneError \<notin> set rm"
  shows "\<exists>e z. t = e @ z \<and> (\<forall>y. runes (e @ y) = rm @ runes y)
           \<and> (rm \<noteq> [] \<longrightarrow> e \<noteq> [] \<and> RuneStart (hd e))"
  using assms
proof (induction rm arbitrary: t)
  case Nil
  have "t = [] @ t \<and> (\<forall>y. runes ([] @ y) = [] @ runes y)" by simp
  then show ?case by blast
next
  case (Cons r rm)
  from Cons.prems(1) have ne: "t \<noteq> []" by (auto simp: runes_Nil_iff[symmetric])
  let ?w = "snd (DecodeRuneInString t)"
  from runes_step[OF ne] Cons.prems(1)
  have r: "fst (DecodeRuneInString t) = r" and rest: "runes (drop ?w t) = rm @ r2"
    by simp_all
  from Cons.prems(2) have rne: "r \<noteq> RuneError" and rm: "RuneError \<notin> set rm" by auto
  from Cons.IH[OF rest rm] obtain e z where ez: "drop ?w t = e @ z"
    and dec: "\<forall>y. runes (e @ y) = rm @ runes y" by blast
  from dec_width[OF ne] have w: "1 \<le> ?w" "?w \<le> length t" by simp_all
  let ?e = "take ?w t @ e"
  have tk: "take ?w t \<noteq> []" using w ne by (cases t) auto
  have t: "t = ?e @ z" using ez by (metis append_assoc append_take_drop_id)
  have "\<forall>y. runes (?e @ y) = (r # rm) @ runes y"
  proof
    fix y
    have ne': "take ?w t @ (e @ y) \<noteq> []" using tk by simp
    have st: "DecodeRuneInString (take ?w t @ (e @ y)) = DecodeRuneInString t"
      using dec_valid_stable[OF ne, of "e @ y"] r rne by simp
    have "runes (take ?w t @ (e @ y)) = r # runes (e @ y)"
      using runes_step[OF ne'] st r w by simp
    with dec show "runes (?e @ y) = (r # rm) @ runes y" by simp
  qed
  moreover have "?e \<noteq> []" using tk by simp
  moreover have "RuneStart (hd ?e)"
    using dec_valid_head[OF ne] r rne tk w by (cases t) auto
  ultimately show ?case using t by blast
qed

lemma runes_block:
  assumes "runes t = r1 @ rm @ r2" "RuneError \<notin> set rm"
  shows "\<exists>x e z. t = x @ e @ z \<and> (\<forall>y. runes (e @ y) = rm @ runes y)
           \<and> (rm \<noteq> [] \<longrightarrow> e \<noteq> [] \<and> RuneStart (hd e))"
  using assms
proof (induction r1 arbitrary: t)
  case Nil
  then have "runes t = rm @ r2" by simp
  from runes_block_head[OF this Nil.prems(2)] obtain e z where "t = [] @ e @ z"
    "\<forall>y. runes (e @ y) = rm @ runes y" "rm \<noteq> [] \<longrightarrow> e \<noteq> [] \<and> RuneStart (hd e)"
    by auto
  then show ?case by blast
next
  case (Cons r r1)
  from Cons.prems(1) have ne: "t \<noteq> []" by (auto simp: runes_Nil_iff[symmetric])
  let ?w = "snd (DecodeRuneInString t)"
  from runes_step[OF ne] Cons.prems(1) have "runes (drop ?w t) = r1 @ rm @ r2" by simp
  from Cons.IH[OF this Cons.prems(2)] obtain x e z where x: "drop ?w t = x @ e @ z"
    and p: "\<forall>y. runes (e @ y) = rm @ runes y" "rm \<noteq> [] \<longrightarrow> e \<noteq> [] \<and> RuneStart (hd e)"
    by blast
  from x have "t = (take ?w t @ x) @ e @ z"
    by (metis append_assoc append_take_drop_id)
  with p show ?case by blast
qed

lemma Map_mono:
  assumes err: "EncodeRune (lower RuneError) = EncodeRune RuneError"
    and clean: "\<forall>q\<in>set (runes p). EncodeRune (lower q) \<noteq> EncodeRune RuneError"
    and sub: "sublist t t'"
    and c: "sublist (Map lower p) (Map lower t)"
  shows "sublist (Map lower p) (Map lower t')"
proof -
  let ?f = "\<lambda>r. EncodeRune (lower r)"
  from sub obtain a b where t': "t' = a @ t @ b" by (auto simp: sublist_def)
  from c obtain u v where uv: "concat (map ?f (runes t)) = u @ concat (map ?f (runes p)) @ v"
    by (auto simp: sublist_def Map_def)
  have el: "list_all enc_like (map ?f (runes p))" "list_all enc_like (map ?f (runes t))"
    by (simp_all add: list_all_iff EncodeRune_shape)
  from infix_align[OF el uv] obtain pre post where
    "map ?f (runes t) = pre @ map ?f (runes p) @ post" by blast
  then obtain r1 rm r2 where rt: "runes t = r1 @ rm @ r2" and rm: "map ?f rm = map ?f (runes p)"
    by (auto simp: map_eq_append_conv append_eq_map_conv)
  have nerr: "RuneError \<notin> set rm"
  proof
    assume "RuneError \<in> set rm"
    then have "?f RuneError \<in> set (map ?f rm)" by (metis image_eqI set_map)
    with rm have "?f RuneError \<in> ?f ` set (runes p)" by simp
    with clean err show False by auto
  qed
  from runes_block[OF rt nerr] obtain x e z where t: "t = x @ e @ z"
    and dec: "\<forall>y. runes (e @ y) = rm @ runes y"
    and hd: "rm \<noteq> [] \<longrightarrow> e \<noteq> [] \<and> RuneStart (hd e)" by blast
  show ?thesis
  proof (cases "rm = []")
    case True
    with rm have "Map lower p = []" by (simp add: Map_def)
    then show ?thesis by simp
  next
    case False
    with hd have e: "e \<noteq> []" "RuneStart (hd e)" by simp_all
    then have "e @ (z @ b) \<noteq> []" "RuneStart (hd (e @ (z @ b)))" by simp_all
    from runes_resync[OF this, of "a @ x"] obtain pre' where
      "runes ((a @ x) @ e @ (z @ b)) = pre' @ runes (e @ (z @ b))" by blast
    with dec t t' have "runes t' = pre' @ rm @ runes (z @ b)" by simp
    then have "Map lower t'
        = concat (map ?f pre') @ concat (map ?f rm) @ concat (map ?f (runes (z @ b)))"
      by (simp add: Map_def)
    with rm have "Map lower t'
        = concat (map ?f pre') @ Map lower p @ concat (map ?f (runes (z @ b)))"
      by (simp add: Map_def)
    then show ?thesis by (auto simp: sublist_def)
  qed
qed

lemma HasPrefix_prefix: "HasPrefix s p \<longleftrightarrow> prefix p s"
  by (metis HasPrefix_def append_eq_conv_conj prefix_def)

lemma Contains_sublist: "Contains s x \<longleftrightarrow> sublist x s"
  by (induction s) (auto simp: HasPrefix_prefix sublist_Cons_right)

lemma byte_ascii_lower: "byte (ascii_lower c) = lower_ascii_only (byte c)"
proof (cases "0x41 \<le> byte c \<and> byte c \<le> 0x5A")
  case True
  then have "byte c + 0x20 < 256" by simp
  with True show ?thesis
    by (simp add: ascii_lower_def lower_ascii_only_def byte_char_of)
next
  case False
  then show ?thesis by (auto simp: ascii_lower_def lower_ascii_only_def)
qed

lemma char_of_byte: "char_of (byte c) = c"
  by (simp add: byte_def)

lemma ascii_Map:
  assumes "\<forall>r<0x80. lower r = lower_ascii_only r" "isASCII s"
  shows "Map lower s = map ascii_lower s"
  using assms(2)
proof (induction s)
  case Nil
  show ?case by (simp add: Map_def)
next
  case (Cons c cs)
  then have c: "byte c < 0x80" and cs: "isASCII cs" by (simp_all add: isASCII_def)
  from c have d: "DecodeRuneInString (c # cs) = (byte c, 1)"
    using dec_ascii[of "c # cs"] by simp
  from c have l: "lower_ascii_only (byte c) \<le> 0x7F"
    by (auto simp: lower_ascii_only_def)
  have "EncodeRune (lower (byte c)) = [char_of (lower_ascii_only (byte c))]"
    using assms(1) c l by (simp add: EncodeRune_def)
  also have "char_of (lower_ascii_only (byte c)) = ascii_lower c"
    by (metis byte_ascii_lower char_of_byte)
  finally have "EncodeRune (lower (byte c)) = [ascii_lower c]" .
  with Cons.IH[OF cs] d show ?case by (simp add: Map_def)
qed

lemma ToLower_Map:
  "\<forall>r<0x80. lower r = lower_ascii_only r \<Longrightarrow> ToLower lower s = Map lower s"
  by (simp add: ToLower_def ascii_Map)

lemma ascii_lower_high: "0x80 \<le> byte (ascii_lower c) \<Longrightarrow> ascii_lower c = c"
  using byte_ascii_lower[of c]
  by (auto simp: ascii_lower_def lower_ascii_only_def split: if_splits)

lemma ascii_lower_high': "0x80 \<le> byte c \<Longrightarrow> ascii_lower c = c"
  by (simp add: ascii_lower_def)

lemma byte_ascii_lower_less: "byte (ascii_lower c) < 0x80 \<longleftrightarrow> byte c < 0x80"
  by (auto simp: byte_ascii_lower lower_ascii_only_def)

lemma sound_at_bytes_high:
  assumes "sound_at s w" "i < w"
  shows "0x80 \<le> byte (s ! i)"
proof -
  from assms seq_size_range[of "byte (s ! 0)"] have "i = 0 \<or> i = 1 \<or> i = 2 \<or> i = 3"
    by (auto simp: sound_at_def)
  with assms accept_range[of "byte (s ! 0)"] show ?thesis
    by (auto simp: sound_at_def split: if_splits)
qed

lemma sound_rune_high:
  assumes "sound_at s w"
  shows "0x80 \<le> fst (DecodeRuneInString s)"
proof -
  let ?s0 = "byte (s ! 0)"
  from assms seq_size_range[of ?s0] have "w = 2 \<or> w = 3 \<or> w = 4"
    by (auto simp: sound_at_def)
  then show ?thesis
  proof (elim disjE)
    assume w: "w = 2"
    with assms have d: "DecodeRuneInString s
        = ((?s0 mod 0x20) * 0x40 + byte (s ! 1) mod 0x40, 2)"
      by (simp add: sound_at_def dec2)
    from assms w have "0xC2 \<le> ?s0" "?s0 < 0xE0"
      by (auto simp: sound_at_def seq_size_def split: if_splits)
    then have "2 \<le> ?s0 mod 0x20" by presburger
    then have "0x80 \<le> (?s0 mod 0x20) * 0x40" by simp
    with d show ?thesis by simp
  next
    assume w: "w = 3"
    with assms have d: "DecodeRuneInString s
        = ((?s0 mod 0x10) * 0x1000 + (byte (s ! 1) mod 0x40) * 0x40 + byte (s ! 2) mod 0x40, 3)"
      by (simp add: sound_at_def dec3)
    from assms w have r: "0xE0 \<le> ?s0" "?s0 < 0xF0"
      by (auto simp: sound_at_def seq_size_def split: if_splits)
    show ?thesis
    proof (cases "?s0 = 0xE0")
      case True
      with assms have "0xA0 \<le> byte (s ! 1)" "byte (s ! 1) \<le> 0xBF"
        using accept_range(2)[of ?s0] by (auto simp: sound_at_def accept_lo_def)
      then have "0x20 \<le> byte (s ! 1) mod 0x40" by presburger
      then have "0x80 \<le> (byte (s ! 1) mod 0x40) * 0x40" by simp
      with d show ?thesis by simp
    next
      case False
      with r have "1 \<le> ?s0 mod 0x10" by presburger
      then have "0x80 \<le> (?s0 mod 0x10) * 0x1000" by simp
      with d show ?thesis by simp
    qed
  next
    assume w: "w = 4"
    with assms have d: "DecodeRuneInString s
        = ((?s0 mod 8) * 0x40000 + (byte (s ! 1) mod 0x40) * 0x1000
            + (byte (s ! 2) mod 0x40) * 0x40 + byte (s ! 3) mod 0x40, 4)"
      by (simp add: sound_at_def dec4)
    from assms w have r: "0xF0 \<le> ?s0" "?s0 \<le> 0xF4"
      by (auto simp: sound_at_def seq_size_def split: if_splits)
    show ?thesis
    proof (cases "?s0 = 0xF0")
      case True
      with assms have "0x90 \<le> byte (s ! 1)" "byte (s ! 1) \<le> 0xBF"
        using accept_range(2)[of ?s0] by (auto simp: sound_at_def accept_lo_def)
      then have "0x10 \<le> byte (s ! 1) mod 0x40" by presburger
      then have "0x80 \<le> (byte (s ! 1) mod 0x40) * 0x1000" by simp
      with d show ?thesis by simp
    next
      case False
      with r have "1 \<le> ?s0 mod 8" by presburger
      then have "0x80 \<le> (?s0 mod 8) * 0x40000" by simp
      with d show ?thesis by simp
    qed
  qed
qed

lemma sound_at_map_lower:
  assumes "sound_at s w"
  shows "sound_at (map ascii_lower s) w \<and> (\<forall>i<w. map ascii_lower s ! i = s ! i)"
proof -
  from assms have wl: "w \<le> length s" by (simp add: sound_at_def)
  have nth: "\<forall>i<w. map ascii_lower s ! i = s ! i"
    using sound_at_bytes_high[OF assms] wl by (simp add: ascii_lower_high')
  from sound_at_cong[OF assms _ nth] wl nth show ?thesis by simp
qed

lemma sound_at_map_lower_rev:
  assumes "sound_at (map ascii_lower s) w"
  shows "sound_at s w \<and> (\<forall>i<w. s ! i = map ascii_lower s ! i)"
proof -
  from assms have wl: "w \<le> length s" by (simp add: sound_at_def)
  have nth: "\<forall>i<w. s ! i = map ascii_lower s ! i"
  proof (intro allI impI)
    fix i assume i: "i < w"
    with wl have "map ascii_lower s ! i = ascii_lower (s ! i)" by simp
    with sound_at_bytes_high[OF assms i] ascii_lower_high[of "s ! i"]
    show "s ! i = map ascii_lower s ! i"
      by simp
  qed
  from sound_at_cong[OF assms wl nth] nth show ?thesis by simp
qed

lemma dec_map_lower:
  assumes "s \<noteq> []"
  shows "DecodeRuneInString (map ascii_lower s)
     = (lower_ascii_only (fst (DecodeRuneInString s)), snd (DecodeRuneInString s))"
  using assms
proof (cases s rule: dec_cases)
  case ascii
  from assms have h: "map ascii_lower s ! 0 = ascii_lower (s ! 0)" by (cases s) auto
  with ascii(1) have "byte (map ascii_lower s ! 0) < 0x80"
    by (simp add: byte_ascii_lower_less)
  with dec_ascii[of "map ascii_lower s"] assms h ascii(2) show ?thesis
    by (simp add: byte_ascii_lower)
next
  case (multi w)
  from sound_at_map_lower[OF multi(1)] dec_sound_eq[OF multi(1)]
  have "DecodeRuneInString (map ascii_lower s) = DecodeRuneInString s" by blast
  moreover from sound_rune_high[OF multi(1)]
  have "lower_ascii_only (fst (DecodeRuneInString s)) = fst (DecodeRuneInString s)"
    by (simp add: lower_ascii_only_def)
  ultimately show ?thesis by (simp add: prod_eq_iff)
next
  case bad
  have ne: "map ascii_lower s \<noteq> []" using assms by simp
  have "DecodeRuneInString (map ascii_lower s) = (RuneError, 1)"
    using ne
  proof (cases "map ascii_lower s" rule: dec_cases)
    case ascii
    from assms have h: "map ascii_lower s ! 0 = ascii_lower (s ! 0)" by (cases s) auto
    with ascii(1) have "byte (s ! 0) < 0x80" by (simp add: byte_ascii_lower_less)
    with dec_ascii[OF assms] bad show ?thesis by (simp add: RuneError_def)
  next
    case bad
    then show ?thesis .
  next
    case (multi w)
    from sound_at_map_lower_rev[OF multi(1)] have "sound_at s w" by simp
    from dec_sound[OF this] bad seq_size_range(1)[of "byte (s ! 0)"] \<open>sound_at s w\<close>
    show ?thesis by (simp add: sound_at_def)
  qed
  with bad show ?thesis by (simp add: lower_ascii_only_def RuneError_def)
qed

lemma runes_map_lower: "runes (map ascii_lower s) = map lower_ascii_only (runes s)"
proof (induction s rule: length_induct)
  case (1 s)
  show ?case
  proof (cases "s = []")
    case True
    then show ?thesis by simp
  next
    case False
    let ?w = "snd (DecodeRuneInString s)"
    from dec_width[OF False] have "1 \<le> ?w" by simp
    with False have "length (drop ?w s) < length s" by simp
    with 1 have IH: "runes (map ascii_lower (drop ?w s)) = map lower_ascii_only (runes (drop ?w s))"
      by blast
    have ne: "map ascii_lower s \<noteq> []" using False by simp
    from runes_step[OF ne] dec_map_lower[OF False] runes_step[OF False] IH
    show ?thesis by (simp add: drop_map)
  qed
qed

lemma Map_map_lower:
  assumes "\<forall>r<0x80. lower r = lower_ascii_only r"
  shows "Map lower (map ascii_lower s) = Map lower s"
proof -
  have "\<And>r. lower (lower_ascii_only r) = lower r"
  proof -
    fix r
    show "lower (lower_ascii_only r) = lower r"
    proof (cases "0x41 \<le> r \<and> r \<le> 0x5A")
      case True
      then have "lower_ascii_only r = r + 0x20" "r + 0x20 < 0x80" "r < 0x80"
        by (simp_all add: lower_ascii_only_def)
      with assms True show ?thesis by (simp add: lower_ascii_only_def)
    next
      case False
      then show ?thesis by (auto simp: lower_ascii_only_def)
    qed
  qed
  then show ?thesis by (simp add: Map_def runes_map_lower o_def)
qed

lemma DetectRefusal_case:
  assumes "\<forall>r<0x80. lower r = lower_ascii_only r" "map ascii_lower t = map ascii_lower t'"
  shows "DetectRefusal lower t = DetectRefusal lower t'"
proof -
  have "ToLower lower t = ToLower lower t'"
    using Map_map_lower[OF assms(1), of t] Map_map_lower[OF assms(1), of t'] assms(2)
    by (simp add: ToLower_Map[OF assms(1)])
  then show ?thesis by (simp add: DetectRefusal_def)
qed

lemma pattern_runes_clean:
  "\<forall>p\<in>set refusalPatterns. \<forall>q\<in>set (runes p).
      EncodeRune (lower_ascii_only q) \<noteq> EncodeRune RuneError"
  by (simp add: refusalPatterns_def DecodeRuneInString_def seq_size_def accept_lo_def
      accept_hi_def byte_def Let_def lower_ascii_only_def EncodeRune_def encode3_def
      RuneError_def char_of_def bit_Suc_0_iff)

lemma Map_cong_runes: "\<forall>q\<in>set (runes s). f q = g q \<Longrightarrow> Map f s = Map g s"
  by (simp add: Map_def cong: map_cong)

lemma lowered_patterns_ascii:
  "map (ToLower lower_ascii_only) refusalPatterns = map (map ascii_lower) refusalPatterns"
  unfolding lowered_refusalPatterns
  by (simp add: refusalPatterns_def ascii_lower_def byte_def char_of_def bit_Suc_0_iff)

lemma pattern_lowered:
  assumes a1: "\<forall>r<0x80. lower r = lower_ascii_only r"
    and a3: "\<forall>p\<in>set refusalPatterns. \<forall>q\<in>set (runes p). 0x80 \<le> q \<longrightarrow> lower q = q"
    and p: "p \<in> set refusalPatterns"
  shows "ToLower lower p = map ascii_lower p"
    and "\<forall>q\<in>set (runes p). EncodeRune (lower q) \<noteq> EncodeRune RuneError"
proof -
  have agree: "\<forall>q\<in>set (runes p). lower q = lower_ascii_only q"
  proof
    fix q assume q: "q \<in> set (runes p)"
    show "lower q = lower_ascii_only q"
    proof (cases "q < 0x80")
      case True
      with a1 show ?thesis by simp
    next
      case False
      with a3 p q have "lower q = q" by auto
      with False show ?thesis by (simp add: lower_ascii_only_def)
    qed
  qed
  have "ToLower lower p = Map lower p" by (rule ToLower_Map[OF a1])
  also have "\<dots> = Map lower_ascii_only p" by (rule Map_cong_runes[OF agree])
  also have "\<dots> = ToLower lower_ascii_only p" by (simp add: ToLower_Map)
  also have "\<dots> = map ascii_lower p"
    using lowered_patterns_ascii p by (simp add: map_eq_conv)
  finally show "ToLower lower p = map ascii_lower p" .
  from pattern_runes_clean p agree
  show "\<forall>q\<in>set (runes p). EncodeRune (lower q) \<noteq> EncodeRune RuneError" by simp
qed

text \<open>
  Claim C7, as amended. After every call of the callback the bytes fed so far (the starting
  buffer and all chunks) are the lines closed by a newline so far, each followed by its
  newline, followed by the pending buffer: nothing is lost and nothing is handed out twice.
  A buffer that does not end in a newline keeps its last segment as the pending buffer and
  does not return it; a buffer that ends in a newline is cleared, and the list returned then
  ends in one empty segment, which is no line of the input.
\<close>

theorem feed_conservation:
  "reinsert (concat (map closed_lines (feed_all buf chunks))) (pending_of buf chunks)
     = buf @ concat chunks
   \<and> (\<not> HasSuffix (buf @ chunk) [nl] \<longrightarrow>
        feed buf chunk
          = (butlast (Split (buf @ chunk) nl), last (Split (buf @ chunk) nl)))
   \<and> (HasSuffix (buf @ chunk) [nl] \<longrightarrow>
        feed buf chunk = (butlast (Split (buf @ chunk) nl) @ [[]], []))"
proof (intro conjI impI)
  show "reinsert (concat (map closed_lines (feed_all buf chunks))) (pending_of buf chunks)
     = buf @ concat chunks"
    by (rule feed_all_conserves)
next
  assume "\<not> HasSuffix (buf @ chunk) [nl]"
  then show "feed buf chunk
      = (butlast (Split (buf @ chunk) nl), last (Split (buf @ chunk) nl))"
    using feed_fst[of buf chunk] feed_snd[of buf chunk]
    by (cases "feed buf chunk") simp
next
  assume h: "HasSuffix (buf @ chunk) [nl]"
  then have "last (Split (buf @ chunk) nl) = []"
    using last_Split_Nil_iff[of "buf @ chunk" nl] by (simp add: HasSuffix_nl)
  with h show "feed buf chunk = (butlast (Split (buf @ chunk) nl) @ [[]], [])"
    using feed_fst[of buf chunk] feed_snd[of buf chunk]
    by (cases "feed buf chunk") simp
qed

theorem feed_conservation_witness:
  "reinsert (concat (map closed_lines (feed_all ''da'' [''ta'' @ [nl] @ ''x'', ''y'' @ [nl]])))
       (pending_of ''da'' [''ta'' @ [nl] @ ''x'', ''y'' @ [nl]])
     = ''data'' @ [nl] @ ''xy'' @ [nl]
   \<and> \<not> HasSuffix (''da'' @ ''ta'' @ [nl] @ ''x'') [nl]
   \<and> feed ''da'' (''ta'' @ [nl] @ ''x'') = ([''data''], ''x'')
   \<and> HasSuffix (''x'' @ ''y'' @ [nl]) [nl]
   \<and> feed ''x'' (''y'' @ [nl]) = ([''xy'', []], [])"
  using feed_conservation[of "''da''" "[''ta'' @ [nl] @ ''x'', ''y'' @ [nl]]" "''ta'' @ [nl] @ ''x''"]
    feed_conservation[of "''x''" "[]" "''y'' @ [nl]"]
  by (simp add: HasSuffix_def nl_def Let_def feed_def closed_lines_def reinsert_def
      pending_of_def)

text \<open>
  Claim C7 as stated fails on a chunk that ends in a newline: the callback returns the
  empty segment after the final newline as one more line, so the lines returned, each with
  its newline put back, are one newline longer than the input; joining the lines and the
  pending buffer with newlines gives the same surplus.
\<close>

theorem feed_reinsert_counterexample:
  "feed [] (''a'' @ [nl]) = ([''a'', []], [])
   \<and> reinsert (fst (feed [] (''a'' @ [nl]))) (snd (feed [] (''a'' @ [nl]))) \<noteq> [] @ ''a'' @ [nl]
   \<and> Join (fst (feed [] (''a'' @ [nl])) @ [snd (feed [] (''a'' @ [nl]))]) [nl] \<noteq> [] @ ''a'' @ [nl]"
  by (simp add: feed_def HasSuffix_def reinsert_def nl_def)

text \<open>
  Claim C6, as amended. Two ways of cutting the same text into chunks give the same lines
  closed by a newline, in the same order and with the blank lines among them, and leave the
  same pending buffer: the lines are the segments of the whole text before its last newline,
  and the pending buffer is what follows that newline. What a call returns is its closed lines
  and, when its buffer ends in a newline, one empty segment after them.
\<close>

theorem feed_fragmentation_invariant:
  "concat chunks = concat chunks' \<Longrightarrow>
     concat (map closed_lines (feed_all [] chunks)) = concat (map closed_lines (feed_all [] chunks'))
     \<and> concat (map closed_lines (feed_all [] chunks)) = butlast (Split (concat chunks) nl)
     \<and> pending_of [] chunks = pending_of [] chunks'
     \<and> pending_of [] chunks = last (Split (concat chunks) nl)
     \<and> fst (feed buf chunk)
         = closed_lines (feed buf chunk) @ (if HasSuffix (buf @ chunk) [nl] then [[]] else [])"
  using closed_lines_total[of "[]" chunks] closed_lines_total[of "[]" chunks']
    feed_closed_lines[of buf chunk]
  by simp

theorem feed_fragmentation_invariant_witness:
  "concat [''a'' @ [nl, nl] @ ''b'' @ [nl] @ ''c''] = concat [''a'' @ [nl], [nl] @ ''b'', [nl] @ ''c'']
   \<and> concat (map closed_lines (feed_all [] [''a'' @ [nl, nl] @ ''b'' @ [nl] @ ''c''])) = [''a'', [], ''b'']
   \<and> concat (map closed_lines (feed_all [] [''a'' @ [nl], [nl] @ ''b'', [nl] @ ''c''])) = [''a'', [], ''b'']
   \<and> frames_of [] [''a'' @ [nl, nl] @ ''b'' @ [nl] @ ''c''] = [''a'', [], ''b'']
   \<and> frames_of [] [''a'' @ [nl], [nl] @ ''b'', [nl] @ ''c''] = [''a'', [], [], ''b'']
   \<and> pending_of [] [''a'' @ [nl], [nl] @ ''b'', [nl] @ ''c''] = ''c''
   \<and> pending_of [] [''a'' @ [nl, nl] @ ''b'' @ [nl] @ ''c''] = ''c''
   \<and> fst (feed [] (''a'' @ [nl])) = closed_lines (feed [] (''a'' @ [nl])) @ [[]]"
  using feed_fragmentation_invariant[of "[''a'' @ [nl, nl] @ ''b'' @ [nl] @ ''c'']"
      "[''a'' @ [nl], [nl] @ ''b'', [nl] @ ''c'']" "[]" "''a'' @ [nl]"]
  by (simp add: frames_of_def pending_of_def feed_def HasSuffix_def nl_def closed_lines_def Let_def)

text \<open>
  Claim C6 as stated fails: the text \<open>a\<newline>b\<newline>\<close> fed as one chunk gives the lines
  \<open>a\<close>, \<open>b\<close> and one empty segment, and fed as the two chunks \<open>a\<newline>\<close> and \<open>b\<newline>\<close> it gives
  \<open>a\<close>, an empty segment, \<open>b\<close> and an empty segment.
\<close>

theorem feed_fragmentation_counterexample:
  "concat [''a'' @ [nl] @ ''b'' @ [nl]] = concat [''a'' @ [nl], ''b'' @ [nl]]
   \<and> frames_of [] [''a'' @ [nl] @ ''b'' @ [nl]] = [''a'', ''b'', []]
   \<and> frames_of [] [''a'' @ [nl], ''b'' @ [nl]] = [''a'', [], ''b'', []]
   \<and> frames_of [] [''a'' @ [nl] @ ''b'' @ [nl]] \<noteq> frames_of [] [''a'' @ [nl], ''b'' @ [nl]]"
  by (simp add: frames_of_def feed_def HasSuffix_def nl_def)


text \<open>
  Claim C4. Take the lines that the callback hands to the loop over lines, for any sequence of
  chunks. A line counts when it starts with \<open>data: \<close>, has a payload after that, the payload
  decodes, and the event decoded has the type \<open>text-delta\<close>. The texts of the text-delta events
  that \<open>handleStream\<close> writes for block 0 are the non-empty deltas of the lines that count, one
  event per delta, each delta whole and in the order of the lines; these events stand between
  the start and the stop of block 0 and nothing else does; put together they are the deltas of
  all lines that count put together, which is the accumulated text, and it is on this text that
  the tool-call parser decides the stop reason.
\<close>

theorem stream_deltas_verbatim:
  "delta_texts 0 (handleStream env chunks err model)
     = [Delta e. frame \<leftarrow> frames_of [] chunks, take 6 frame = ''data: '', drop 6 frame \<noteq> [],
          e \<leftarrow> (case Unmarshal env (drop 6 frame) of None \<Rightarrow> [] | Some e \<Rightarrow> [e]),
          event_Type e = ''text-delta'', Delta e \<noteq> []]
   \<and> events_of_block 0 (handleStream env chunks err model)
     = content_block_start_text 0
       # map (content_block_delta_text 0)
           [Delta e. frame \<leftarrow> frames_of [] chunks, take 6 frame = ''data: '', drop 6 frame \<noteq> [],
              e \<leftarrow> (case Unmarshal env (drop 6 frame) of None \<Rightarrow> [] | Some e \<Rightarrow> [e]),
              event_Type e = ''text-delta'', Delta e \<noteq> []]
       @ [content_block_stop 0]
   \<and> concat (delta_texts 0 (handleStream env chunks err model))
     = concat [Delta e. frame \<leftarrow> frames_of [] chunks, take 6 frame = ''data: '', drop 6 frame \<noteq> [],
          e \<leftarrow> (case Unmarshal env (drop 6 frame) of None \<Rightarrow> [] | Some e \<Rightarrow> [e]),
          event_Type e = ''text-delta'']
   \<and> AccumulatedText env chunks = concat (delta_texts 0 (handleStream env chunks err model))
   \<and> stop_reasons (handleStream env chunks err model)
     = [if fst (ParseToolCalls env
             (concat [Delta e. frame \<leftarrow> frames_of [] chunks, take 6 frame = ''data: '',
                drop 6 frame \<noteq> [],
                e \<leftarrow> (case Unmarshal env (drop 6 frame) of None \<Rightarrow> [] | Some e \<Rightarrow> [e]),
                event_Type e = ''text-delta''])) = []
        then ''end_turn'' else ''tool_use'']"
proof -
  have d: "delta_texts 0 (handleStream env chunks err model) = upstream_deltas env (frames_of [] chunks)"
    by (cases err)
       (simp_all add: handleStream_eq delta_texts_append delta_texts_map delta_texts_tool_events)
  show ?thesis
    unfolding concat_text_deltas
    unfolding upstream_deltas_explicit[symmetric] d
    by (simp add: events_of_block_0_stream stop_reasons_stream AccumulatedText_eq)
qed

theorem stream_deltas_verbatim_witness:
  "frames_of [] stream_chunks =
     [''data: '' @ part1_payload, '': keep-alive'', ''data: '', ''data: not json'',
      ''data: '' @ empty_delta_payload, [], ''data: '' @ reasoning_payload, [],
      ''data: '' @ part2_payload, ''data: '' @ finish_payload, []]
   \<and> delta_texts 0 (handleStream stream_env stream_chunks None ''m'')
     = [''Hel'', ''lo, world: this delta is longer than forty bytes.'']
   \<and> events_of_block 0 (handleStream stream_env stream_chunks None ''m'')
     = [content_block_start_text 0,
        content_block_delta_text 0 ''Hel'',
        content_block_delta_text 0 ''lo, world: this delta is longer than forty bytes.'',
        content_block_stop 0]
   \<and> AccumulatedText stream_env stream_chunks
     = ''Hello, world: this delta is longer than forty bytes.''"
proof -
  have u: "Unmarshal stream_env = stream_Unmarshal"
    by (simp add: stream_env_def)
  show ?thesis
    using stream_deltas_verbatim[of stream_env stream_chunks None "''m''"]
    unfolding stream_frames u
    by (simp add: stream_Unmarshal_def part1_payload_def empty_delta_payload_def
        reasoning_payload_def part2_payload_def finish_payload_def)
qed



text \<open>
  Claim C10. For every input text, the empty one included, \<open>parseResponseToBlocks\<close> returns at
  least one block; when the parser returns no tool call and no remaining text and the command
  of a refusal is not run, the result is the single text block that carries the input text.
\<close>

theorem parseResponseToBlocks_never_empty:
  "blocks (parseResponseToBlocks env n text userMessages) \<noteq> []
   \<and> (fst (ParseToolCalls env text) = [] \<and> snd (ParseToolCalls env text) = []
        \<and> \<not> recovers env text
      \<longrightarrow> blocks (parseResponseToBlocks env n text userMessages) = [text_block text])"
proof (cases "recovers env text")
  case True
  then show ?thesis
    using parse_recovery[of env "text" n userMessages] by (simp add: recovers_def)
next
  case False
  then have np: "\<not> (fst (ParseToolCalls env text) = [] \<and> DetectRefusal (unicode_ToLower env) text
              \<and> ExtractCommandFromRefusal text \<noteq> [])"
    by (simp add: recovers_def)
  show ?thesis
    using False
    by (cases "fst (ParseToolCalls env text)")
       (simp_all add: parse_plain[OF np] tool_blocks_from_def)
qed

theorem parseResponseToBlocks_never_empty_witness:
  "blocks (parseResponseToBlocks example_env 0 [] []) \<noteq> []
   \<and> fst (ParseToolCalls example_env []) = [] \<and> snd (ParseToolCalls example_env []) = []
   \<and> \<not> recovers example_env []
   \<and> blocks (parseResponseToBlocks example_env 0 [] []) = [text_block []]"
  using parseResponseToBlocks_never_empty[of example_env 0 "[]" "[]"]
  by (simp add: example_env_simps recovers_def empty_not_refusal)

text \<open>
  Claim C2, as amended. When the parser returns no tool call, the text is classified as a
  refusal and a command is extracted, \<open>parseResponseToBlocks\<close> calls the executor once, with
  the tool name \<open>bash\<close> and the input that maps \<open>command\<close> to the extracted command, and
  returns three blocks: the text block of the notice, the tool-use block of \<open>bash\<close> with that
  input, and a text block that holds two newlines, the marker, a colon and the result in a
  fenced block, where the marker is the success marker and the result the output when the
  executor succeeds, and the marker is the failure marker and the result the error text when
  it fails; the two markers differ. When the parser returns no tool call and the text is no
  refusal or no command is extracted, the executor is not called and the single block returned
  is a text block with the text that the parser left, or with the input text when the parser
  left none; it is the input text exactly when the parser left the text as it was or left
  nothing. Whatever the executor returns, \<open>handleNonStream\<close> answers with the blocks, not with
  an error.
\<close>

theorem recovery_orchestrator:
  "(recovers env text \<longrightarrow>
      executed (parseResponseToBlocks env n text userMessages)
        = [(''bash'', [''command'' \<mapsto> JString (ExtractCommandFromRefusal text)])]
      \<and> (\<forall>out. Execute env ''bash'' [''command'' \<mapsto> JString (ExtractCommandFromRefusal text)] = Inr out
           \<longrightarrow> blocks (parseResponseToBlocks env n text userMessages)
             = [\<lparr>Type = ''text'', Text = notice_text, ID = [], Name = [], Input = Map.empty\<rparr>,
                \<lparr>Type = ''tool_use'', Text = [], ID = ''toolu_'' @ generateID env n, Name = ''bash'',
                  Input = [''command'' \<mapsto> JString (ExtractCommandFromRefusal text)]\<rparr>,
                \<lparr>Type = ''text'',
                  Text = [nl, nl] @ success_marker @ '':'' @ [nl, CHR 0x60, CHR 0x60, CHR 0x60, nl]
                         @ out @ [nl, CHR 0x60, CHR 0x60, CHR 0x60],
                  ID = [], Name = [], Input = Map.empty\<rparr>])
      \<and> (\<forall>e. Execute env ''bash'' [''command'' \<mapsto> JString (ExtractCommandFromRefusal text)] = Inl e
           \<longrightarrow> blocks (parseResponseToBlocks env n text userMessages)
             = [\<lparr>Type = ''text'', Text = notice_text, ID = [], Name = [], Input = Map.empty\<rparr>,
                \<lparr>Type = ''tool_use'', Text = [], ID = ''toolu_'' @ generateID env n, Name = ''bash'',
                  Input = [''command'' \<mapsto> JString (ExtractCommandFromRefusal text)]\<rparr>,
                \<lparr>Type = ''text'',
                  Text = [nl, nl] @ failure_marker @ '':'' @ [nl, CHR 0x60, CHR 0x60, CHR 0x60, nl]
                         @ e @ [nl, CHR 0x60, CHR 0x60, CHR 0x60],
                  ID = [], Name = [], Input = Map.empty\<rparr>]))
   \<and> success_marker \<noteq> failure_marker
   \<and> (fst (ParseToolCalls env text) = []
        \<and> (\<not> DetectRefusal (unicode_ToLower env) text \<or> ExtractCommandFromRefusal text = [])
      \<longrightarrow> executed (parseResponseToBlocks env n text userMessages) = []
        \<and> blocks (parseResponseToBlocks env n text userMessages)
          = [\<lparr>Type = ''text'',
               Text = (if snd (ParseToolCalls env text) \<noteq> [] then snd (ParseToolCalls env text)
                       else text),
               ID = [], Name = [], Input = Map.empty\<rparr>]
        \<and> (blocks (parseResponseToBlocks env n text userMessages)
             = [\<lparr>Type = ''text'', Text = text, ID = [], Name = [], Input = Map.empty\<rparr>]
           \<longleftrightarrow> snd (ParseToolCalls env text) = text \<or> snd (ParseToolCalls env text) = []))
   \<and> (\<exists>resp. handleNonStream env (Inr result) model
         = (OK resp, executed (parseResponseToBlocks env 0 (fullText_of env [] (Split result nl)) []))
        \<and> Content resp
           = blocks (parseResponseToBlocks env 0 (fullText_of env [] (Split result nl)) []))"
proof (intro conjI impI allI)
  assume r: "recovers env text"
  then have a: "fst (ParseToolCalls env text) = []" "DetectRefusal (unicode_ToLower env) text"
    "ExtractCommandFromRefusal text \<noteq> []"
    by (simp_all add: recovers_def)
  note eq = parse_recovery[OF a, of n userMessages]
  show "executed (parseResponseToBlocks env n text userMessages)
        = [(''bash'', [''command'' \<mapsto> JString (ExtractCommandFromRefusal text)])]"
    by (simp add: eq)
  { fix out
    assume "Execute env ''bash'' [''command'' \<mapsto> JString (ExtractCommandFromRefusal text)] = Inr out"
    then show "blocks (parseResponseToBlocks env n text userMessages)
             = [\<lparr>Type = ''text'', Text = notice_text, ID = [], Name = [], Input = Map.empty\<rparr>,
                \<lparr>Type = ''tool_use'', Text = [], ID = ''toolu_'' @ generateID env n, Name = ''bash'',
                  Input = [''command'' \<mapsto> JString (ExtractCommandFromRefusal text)]\<rparr>,
                \<lparr>Type = ''text'',
                  Text = [nl, nl] @ success_marker @ '':'' @ [nl, CHR 0x60, CHR 0x60, CHR 0x60, nl]
                         @ out @ [nl, CHR 0x60, CHR 0x60, CHR 0x60],
                  ID = [], Name = [], Input = Map.empty\<rparr>]"
      by (simp add: eq text_block_def tool_use_block_def result_text_def nl_def) }
  { fix e
    assume "Execute env ''bash'' [''command'' \<mapsto> JString (ExtractCommandFromRefusal text)] = Inl e"
    then show "blocks (parseResponseToBlocks env n text userMessages)
             = [\<lparr>Type = ''text'', Text = notice_text, ID = [], Name = [], Input = Map.empty\<rparr>,
                \<lparr>Type = ''tool_use'', Text = [], ID = ''toolu_'' @ generateID env n, Name = ''bash'',
                  Input = [''command'' \<mapsto> JString (ExtractCommandFromRefusal text)]\<rparr>,
                \<lparr>Type = ''text'',
                  Text = [nl, nl] @ failure_marker @ '':'' @ [nl, CHR 0x60, CHR 0x60, CHR 0x60, nl]
                         @ e @ [nl, CHR 0x60, CHR 0x60, CHR 0x60],
                  ID = [], Name = [], Input = Map.empty\<rparr>]"
      by (simp add: eq text_block_def tool_use_block_def result_text_def nl_def) }
next
  show "success_marker \<noteq> failure_marker" by (rule markers_differ)
next
  assume h: "fst (ParseToolCalls env text) = []
        \<and> (\<not> DetectRefusal (unicode_ToLower env) text \<or> ExtractCommandFromRefusal text = [])"
  then have np: "\<not> (fst (ParseToolCalls env text) = [] \<and> DetectRefusal (unicode_ToLower env) text
              \<and> ExtractCommandFromRefusal text \<noteq> [])"
    by auto
  from h show "executed (parseResponseToBlocks env n text userMessages) = []"
    by (simp add: parse_plain[OF np])
  from h show b: "blocks (parseResponseToBlocks env n text userMessages)
          = [\<lparr>Type = ''text'',
               Text = (if snd (ParseToolCalls env text) \<noteq> [] then snd (ParseToolCalls env text)
                       else text),
               ID = [], Name = [], Input = Map.empty\<rparr>]"
    by (simp add: parse_plain[OF np] tool_blocks_from_def text_block_def)
  show "blocks (parseResponseToBlocks env n text userMessages)
             = [\<lparr>Type = ''text'', Text = text, ID = [], Name = [], Input = Map.empty\<rparr>]
           \<longleftrightarrow> snd (ParseToolCalls env text) = text \<or> snd (ParseToolCalls env text) = []"
    unfolding b by auto
next
  show "\<exists>resp. handleNonStream env (Inr result) model
         = (OK resp, executed (parseResponseToBlocks env 0 (fullText_of env [] (Split result nl)) []))
        \<and> Content resp
           = blocks (parseResponseToBlocks env 0 (fullText_of env [] (Split result nl)) [])"
    by (simp add: handleNonStream_Inr)
qed

theorem recovery_orchestrator_witness:
  "recovers example_env refusal_text
   \<and> ExtractCommandFromRefusal refusal_text = ''ls -la''
   \<and> Execute example_env ''bash'' [''command'' \<mapsto> JString ''ls -la''] = Inr ''total 0''
   \<and> executed (parseResponseToBlocks example_env 0 refusal_text [])
       = [(''bash'', [''command'' \<mapsto> JString ''ls -la''])]
   \<and> blocks (parseResponseToBlocks example_env 0 refusal_text [])
       = [\<lparr>Type = ''text'', Text = notice_text, ID = [], Name = [], Input = Map.empty\<rparr>,
          \<lparr>Type = ''tool_use'', Text = [], ID = ''toolu_'', Name = ''bash'',
            Input = [''command'' \<mapsto> JString ''ls -la'']\<rparr>,
          \<lparr>Type = ''text'',
            Text = [nl, nl] @ success_marker @ '':'' @ [nl, CHR 0x60, CHR 0x60, CHR 0x60, nl]
                   @ ''total 0'' @ [nl, CHR 0x60, CHR 0x60, CHR 0x60],
            ID = [], Name = [], Input = Map.empty\<rparr>]
   \<and> recovers failing_env refusal_text
   \<and> Execute failing_env ''bash'' [''command'' \<mapsto> JString ''ls -la''] = Inl ''exit status 2''
   \<and> blocks (parseResponseToBlocks failing_env 0 refusal_text [])
       = [\<lparr>Type = ''text'', Text = notice_text, ID = [], Name = [], Input = Map.empty\<rparr>,
          \<lparr>Type = ''tool_use'', Text = [], ID = ''toolu_'', Name = ''bash'',
            Input = [''command'' \<mapsto> JString ''ls -la'']\<rparr>,
          \<lparr>Type = ''text'',
            Text = [nl, nl] @ failure_marker @ '':'' @ [nl, CHR 0x60, CHR 0x60, CHR 0x60, nl]
                   @ ''exit status 2'' @ [nl, CHR 0x60, CHR 0x60, CHR 0x60],
            ID = [], Name = [], Input = Map.empty\<rparr>]
   \<and> fst (ParseToolCalls example_env ''Hello'') = []
   \<and> \<not> DetectRefusal (unicode_ToLower example_env) ''Hello''
   \<and> snd (ParseToolCalls example_env ''Hello'') = ''Hello''
   \<and> executed (parseResponseToBlocks example_env 0 ''Hello'' []) = []
   \<and> blocks (parseResponseToBlocks example_env 0 ''Hello'' [])
       = [\<lparr>Type = ''text'', Text = ''Hello'', ID = [], Name = [], Input = Map.empty\<rparr>]"
  using recovery_orchestrator[of example_env refusal_text 0 "[]" "[]" "[]"]
    recovery_orchestrator[of failing_env refusal_text 0 "[]" "[]" "[]"]
    recovery_orchestrator[of example_env "''Hello''" 0 "[]" "[]" "[]"]
  by (simp add: ex_recovers ex_extract example_env_simps failing_env_simps hello_not_refusal)

text \<open>
  Claim C2 as stated fails in its last part: the text block carries the text that the parser
  left, which need not be the input text. With a parser that finds no tool call and returns
  the text without the white space around it, the text \<open>Hello\<close> followed by a newline is no
  refusal, and the block returned carries \<open>Hello\<close> without the newline.
\<close>

theorem recovery_text_as_is_counterexample:
  "fst (ParseToolCalls trimming_env (''Hello'' @ [nl])) = []
   \<and> \<not> DetectRefusal (unicode_ToLower trimming_env) (''Hello'' @ [nl])
   \<and> executed (parseResponseToBlocks trimming_env 0 (''Hello'' @ [nl]) []) = []
   \<and> blocks (parseResponseToBlocks trimming_env 0 (''Hello'' @ [nl]) [])
       = [\<lparr>Type = ''text'', Text = ''Hello'', ID = [], Name = [], Input = Map.empty\<rparr>]
   \<and> blocks (parseResponseToBlocks trimming_env 0 (''Hello'' @ [nl]) [])
       \<noteq> [\<lparr>Type = ''text'', Text = ''Hello'' @ [nl], ID = [], Name = [], Input = Map.empty\<rparr>]"
proof -
  have p: "ParseToolCalls trimming_env (''Hello'' @ [nl]) = ([], ''Hello'')"
    using TrimSpace_hello by (simp add: trimming_env_def example_env_def)
  have l: "unicode_ToLower trimming_env = lower_ascii_only"
    by (simp add: trimming_env_def example_env_def)
  have np: "\<not> (fst (ParseToolCalls trimming_env (''Hello'' @ [nl])) = []
      \<and> DetectRefusal (unicode_ToLower trimming_env) (''Hello'' @ [nl])
      \<and> ExtractCommandFromRefusal (''Hello'' @ [nl]) \<noteq> [])"
    using hello_nl_not_refusal by (simp add: l)
  show ?thesis
    unfolding parse_plain[OF np] p l
    using hello_nl_not_refusal
    by (simp add: tool_blocks_from_def text_block_def)
qed

text \<open>
  Claim C3. \<open>handleStream\<close> sends one stop reason: \<open>tool_use\<close> when it has written the start
  of a tool-use block, \<open>end_turn\<close> otherwise. The stop reason of a \<open>handleNonStream\<close> response is
  \<open>tool_use\<close> when its content has a tool-use block, \<open>end_turn\<close> otherwise; and the content
  has a tool-use block exactly when the parser returned a tool call or the command of a refusal
  was run.
\<close>

theorem stop_reason_selection:
  "stop_reasons (handleStream env chunks err model)
     = [if list_ex is_tool_start (handleStream env chunks err model) then ''tool_use''
        else ''end_turn'']
   \<and> (fst (handleNonStream env (Inr result) model) = OK resp \<longrightarrow>
        StopReason resp = (if list_ex (\<lambda>b. Type b = ''tool_use'') (Content resp) then ''tool_use''
                           else ''end_turn''))
   \<and> (list_ex (\<lambda>b. Type b = ''tool_use'') (blocks (parseResponseToBlocks env n text userMessages))
        \<longleftrightarrow> fst (ParseToolCalls env text) \<noteq> [] \<or> recovers env text)"
proof (intro conjI impI)
  show "stop_reasons (handleStream env chunks err model)
     = [if list_ex is_tool_start (handleStream env chunks err model) then ''tool_use''
        else ''end_turn'']"
    by (cases err)
       (simp_all add: handleStream_eq stop_reasons_append stop_reasons_deltas
          stop_reasons_tool_events list_ex_tool_start_tool_events list_ex_tool_start_deltas)
next
  assume "fst (handleNonStream env (Inr result) model) = OK resp"
  then show "StopReason resp = (if list_ex (\<lambda>b. Type b = ''tool_use'') (Content resp)
      then ''tool_use'' else ''end_turn'')"
    by (auto simp: handleNonStream_Inr stopReason_of_eq)
next
  show "list_ex (\<lambda>b. Type b = ''tool_use'') (blocks (parseResponseToBlocks env n text userMessages))
        \<longleftrightarrow> fst (ParseToolCalls env text) \<noteq> [] \<or> recovers env text"
    by (rule list_ex_tool_use_blocks)
qed

theorem stop_reason_selection_witness:
  "stop_reasons (handleStream tool_env hello_chunks None ''m'') = [''tool_use'']
   \<and> list_ex is_tool_start (handleStream tool_env hello_chunks None ''m'')
   \<and> stop_reasons (handleStream example_env refusal_chunks None ''m'') = [''end_turn'']
   \<and> \<not> list_ex is_tool_start (handleStream example_env refusal_chunks None ''m'')
   \<and> (\<exists>resp. fst (handleNonStream example_env (Inr (''data: '' @ refusal_payload)) ''m'') = OK resp
        \<and> StopReason resp = ''tool_use''
        \<and> list_ex (\<lambda>b. Type b = ''tool_use'') (Content resp))
   \<and> (\<exists>resp. fst (handleNonStream example_env (Inr (''data: '' @ hello_payload)) ''m'') = OK resp
        \<and> StopReason resp = ''end_turn''
        \<and> \<not> list_ex (\<lambda>b. Type b = ''tool_use'') (Content resp))"
proof -
  have a: "list_ex is_tool_start (handleStream tool_env hello_chunks None ''m'')"
    by (simp add: handleStream_eq tool_env_simps list_ex_tool_start_deltas)
  have b: "\<not> list_ex is_tool_start (handleStream example_env refusal_chunks None ''m'')"
    by (simp add: handleStream_eq example_env_simps list_ex_tool_start_deltas)
  have sp1: "Split (''data: '' @ refusal_payload) nl = [''data: '' @ refusal_payload]"
    by (simp add: refusal_payload_def nl_def)
  have sp2: "Split (''data: '' @ hello_payload) nl = [''data: '' @ hello_payload]"
    by (simp add: hello_payload_def nl_def)
  have t1: "fullText_of example_env [] (Split (''data: '' @ refusal_payload) nl) = refusal_text"
    unfolding sp1 using example_text_deltas(2)[of example_env]
    by (simp add: example_env_simps)
  have t2: "fullText_of example_env [] (Split (''data: '' @ hello_payload) nl) = ''Hello''"
    unfolding sp2 using example_text_deltas(1)[of example_env]
    by (simp add: example_env_simps)
  have "\<exists>r. fst (handleNonStream example_env (Inr (''data: '' @ refusal_payload)) ''m'') = OK r
      \<and> Content r = blocks (parseResponseToBlocks example_env 0 refusal_text [])"
    unfolding handleNonStream_Inr t1 by simp
  then obtain r1 where r1: "fst (handleNonStream example_env (Inr (''data: '' @ refusal_payload)) ''m'') = OK r1"
    and c1: "Content r1 = blocks (parseResponseToBlocks example_env 0 refusal_text [])"
    by blast
  have "\<exists>r. fst (handleNonStream example_env (Inr (''data: '' @ hello_payload)) ''m'') = OK r
      \<and> Content r = blocks (parseResponseToBlocks example_env 0 ''Hello'' [])"
    unfolding handleNonStream_Inr t2 by simp
  then obtain r2 where r2: "fst (handleNonStream example_env (Inr (''data: '' @ hello_payload)) ''m'') = OK r2"
    and c2: "Content r2 = blocks (parseResponseToBlocks example_env 0 ''Hello'' [])"
    by blast
  have l1: "list_ex (\<lambda>b. Type b = ''tool_use'') (Content r1)"
    unfolding c1 using ex_recovers(1) by (simp add: list_ex_tool_use_blocks)
  have l2: "\<not> list_ex (\<lambda>b. Type b = ''tool_use'') (Content r2)"
    unfolding c2
    by (simp add: list_ex_tool_use_blocks recovers_def example_env_simps hello_not_refusal)
  from stop_reason_selection[of tool_env hello_chunks None "''m''" "[]" r1 0 "[]" "[]"] a
  have s1: "stop_reasons (handleStream tool_env hello_chunks None ''m'') = [''tool_use'']"
    by simp
  from stop_reason_selection[of example_env refusal_chunks None "''m''" "''data: '' @ refusal_payload"
      r1 0 "[]" "[]"] b r1 l1
  have s2: "stop_reasons (handleStream example_env refusal_chunks None ''m'') = [''end_turn'']"
    and s3: "StopReason r1 = ''tool_use''"
    by simp_all
  from stop_reason_selection[of example_env refusal_chunks None "''m''" "''data: '' @ hello_payload"
      r2 0 "[]" "[]"] r2 l2
  have s4: "StopReason r2 = ''end_turn''"
    by simp
  from a b s1 s2 s3 s4 r1 r2 l1 l2 show ?thesis by blast
qed

text \<open>
  Claim C1, as amended. Take an accumulated text on which \<open>parseResponseToBlocks\<close> does not run
  the command of a refusal. Then the blocks of the event stream of \<open>handleStream\<close> are the text
  block with the whole accumulated text followed by one tool-use block per parsed tool call,
  and the blocks of \<open>parseResponseToBlocks\<close> are a text block with the text the parser left
  (with the whole text when the parser left no text and found no call, and no text block when
  it left no text and found a call) followed by the same tool-use blocks: same names, same
  inputs, same order. The two sequences are equal when the parser leaves the text as it is
  and the text is not empty, or returns neither a call nor text.
\<close>

theorem stream_and_non_stream_blocks:
  "\<not> recovers env (AccumulatedText env chunks) \<longrightarrow>
     stream_blocks (handleStream env chunks err model)
       = text_view (AccumulatedText env chunks)
         # map (tool_view env) (fst (ParseToolCalls env (AccumulatedText env chunks)))
     \<and> map (view_of_block env)
          (blocks (parseResponseToBlocks env n (AccumulatedText env chunks) userMessages))
       = (if snd (ParseToolCalls env (AccumulatedText env chunks)) \<noteq> []
          then [text_view (snd (ParseToolCalls env (AccumulatedText env chunks)))]
          else if fst (ParseToolCalls env (AccumulatedText env chunks)) = []
          then [text_view (AccumulatedText env chunks)] else [])
         @ map (tool_view env) (fst (ParseToolCalls env (AccumulatedText env chunks)))
     \<and> filter is_tool_view (stream_blocks (handleStream env chunks err model))
       = filter is_tool_view (map (view_of_block env)
           (blocks (parseResponseToBlocks env n (AccumulatedText env chunks) userMessages)))
     \<and> (snd (ParseToolCalls env (AccumulatedText env chunks)) = AccumulatedText env chunks
           \<and> AccumulatedText env chunks \<noteq> []
         \<or> (snd (ParseToolCalls env (AccumulatedText env chunks)) = []
             \<and> fst (ParseToolCalls env (AccumulatedText env chunks)) = [])
        \<longrightarrow> stream_blocks (handleStream env chunks err model)
          = map (view_of_block env)
              (blocks (parseResponseToBlocks env n (AccumulatedText env chunks) userMessages)))"
proof (intro impI)
  assume r: "\<not> recovers env (AccumulatedText env chunks)"
  note ns = non_stream_views[OF r, of n userMessages]
  show "stream_blocks (handleStream env chunks err model)
       = text_view (AccumulatedText env chunks)
         # map (tool_view env) (fst (ParseToolCalls env (AccumulatedText env chunks)))
     \<and> map (view_of_block env)
          (blocks (parseResponseToBlocks env n (AccumulatedText env chunks) userMessages))
       = (if snd (ParseToolCalls env (AccumulatedText env chunks)) \<noteq> []
          then [text_view (snd (ParseToolCalls env (AccumulatedText env chunks)))]
          else if fst (ParseToolCalls env (AccumulatedText env chunks)) = []
          then [text_view (AccumulatedText env chunks)] else [])
         @ map (tool_view env) (fst (ParseToolCalls env (AccumulatedText env chunks)))
     \<and> filter is_tool_view (stream_blocks (handleStream env chunks err model))
       = filter is_tool_view (map (view_of_block env)
           (blocks (parseResponseToBlocks env n (AccumulatedText env chunks) userMessages)))
     \<and> (snd (ParseToolCalls env (AccumulatedText env chunks)) = AccumulatedText env chunks
           \<and> AccumulatedText env chunks \<noteq> []
         \<or> (snd (ParseToolCalls env (AccumulatedText env chunks)) = []
             \<and> fst (ParseToolCalls env (AccumulatedText env chunks)) = [])
        \<longrightarrow> stream_blocks (handleStream env chunks err model)
          = map (view_of_block env)
              (blocks (parseResponseToBlocks env n (AccumulatedText env chunks) userMessages)))"
    unfolding ns stream_blocks_eq
    by (auto simp: filter_tool_views)
qed

theorem stream_and_non_stream_blocks_witness:
  "\<not> recovers tool_env (AccumulatedText tool_env hello_chunks)
   \<and> stream_blocks (handleStream tool_env hello_chunks None ''m'')
       = [text_view ''Hello'', tool_use_view ''read_file'' ''{}'']
   \<and> map (view_of_block tool_env)
        (blocks (parseResponseToBlocks tool_env 0 (AccumulatedText tool_env hello_chunks) []))
       = [tool_use_view ''read_file'' ''{}'']
   \<and> \<not> recovers example_env (AccumulatedText example_env hello_chunks)
   \<and> snd (ParseToolCalls example_env (AccumulatedText example_env hello_chunks))
       = AccumulatedText example_env hello_chunks
   \<and> AccumulatedText example_env hello_chunks \<noteq> []
   \<and> stream_blocks (handleStream example_env hello_chunks None ''m'') = [text_view ''Hello'']
   \<and> map (view_of_block example_env)
        (blocks (parseResponseToBlocks example_env 0 (AccumulatedText example_env hello_chunks) []))
       = [text_view ''Hello'']"
  using stream_and_non_stream_blocks[of tool_env hello_chunks None "''m''" 0 "[]"]
    stream_and_non_stream_blocks[of example_env hello_chunks None "''m''" 0 "[]"]
  by (simp add: hello_text tool_env_simps example_env_simps recovers_def hello_not_refusal
      tool_view_def escapeJSON_braces)

text \<open>
  Claim C1 as stated fails. On a refusal with a command and a parser that finds no tool
  call, the event stream of \<open>handleStream\<close> carries one text block with the refusal, and
  \<open>parseResponseToBlocks\<close> returns the notice, a tool-use block of \<open>bash\<close> and the result text.
  On a text in which the parser finds one tool call and leaves no text, the event stream
  carries a text block and the tool-use block, and \<open>parseResponseToBlocks\<close> returns the
  tool-use block alone.
\<close>

theorem stream_and_non_stream_blocks_counterexample:
  "AccumulatedText example_env refusal_chunks = refusal_text
   \<and> stream_blocks (handleStream example_env refusal_chunks None ''m'') = [text_view refusal_text]
   \<and> map (view_of_block example_env) (blocks (parseResponseToBlocks example_env 0 refusal_text []))
       = [text_view notice_text, tool_use_view ''bash'' ''{}'',
          text_view (result_text success_marker ''total 0'')]
   \<and> AccumulatedText tool_env hello_chunks = ''Hello''
   \<and> stream_blocks (handleStream tool_env hello_chunks None ''m'')
       = [text_view ''Hello'', tool_use_view ''read_file'' ''{}'']
   \<and> map (view_of_block tool_env) (blocks (parseResponseToBlocks tool_env 0 ''Hello'' []))
       = [tool_use_view ''read_file'' ''{}'']"
proof -
  have 1: "AccumulatedText example_env refusal_chunks = refusal_text"
    by (simp add: refusal_text_accumulated example_env_simps)
  have 2: "stream_blocks (handleStream example_env refusal_chunks None ''m'') = [text_view refusal_text]"
    by (simp add: stream_blocks_eq 1 example_env_simps)
  have 3: "map (view_of_block example_env) (blocks (parseResponseToBlocks example_env 0 refusal_text []))
       = [text_view notice_text, tool_use_view ''bash'' ''{}'',
          text_view (result_text success_marker ''total 0'')]"
    using ex_recovers(1)
    by (simp add: recovers_def parse_recovery view_text_block view_tool_use_block
        example_env_simps escapeJSON_braces)
  have 4: "AccumulatedText tool_env hello_chunks = ''Hello''"
    by (simp add: hello_text tool_env_simps)
  have 5: "stream_blocks (handleStream tool_env hello_chunks None ''m'')
       = [text_view ''Hello'', tool_use_view ''read_file'' ''{}'']"
    by (simp add: stream_blocks_eq 4 tool_env_simps tool_view_def escapeJSON_braces)
  have "\<not> recovers tool_env ''Hello''"
    by (simp add: recovers_def tool_env_simps)
  from non_stream_views[OF this, of 0 "[]"]
  have 6: "map (view_of_block tool_env) (blocks (parseResponseToBlocks tool_env 0 ''Hello'' []))
       = [tool_use_view ''read_file'' ''{}'']"
    by (simp add: tool_env_simps tool_view_def escapeJSON_braces)
  from 1 2 3 4 5 6 show ?thesis by blast
qed

text \<open>
  Claim C9, as amended. The three loops of \<open>ParseUserIntent\<close> write the same field one after
  the other, so the last list with a matching pattern decides: the action is \<open>run_command\<close>
  when a run-command pattern matches the joined, lowered messages; else \<open>read_file\<close> when a
  read-file pattern matches; else \<open>create_file\<close> when a create-file pattern matches; else it
  is empty. The function is total: no input makes it fail.
\<close>

theorem ParseUserIntent_Action_last_group_wins:
  "ParseUserIntent_Action lower messages =
     (if list_ex (\<lambda>p. MatchString p (ToLower lower (Join messages '' ''))) cmdPatterns
        then ''run_command''
      else if list_ex (\<lambda>p. MatchString p (ToLower lower (Join messages '' ''))) readPatterns
        then ''read_file''
      else if list_ex (\<lambda>p. MatchString p (ToLower lower (Join messages '' ''))) createPatterns
        then ''create_file''
      else [])"
  by (simp add: ParseUserIntent_Action_def scan_patterns_eq Let_def)

theorem ParseUserIntent_Action_last_group_wins_witness:
  "ParseUserIntent_Action lower_ascii_only [''Please READ'', ''the file''] = ''read_file''
   \<and> \<not> list_ex (\<lambda>p. MatchString p ''please read the file'') cmdPatterns
   \<and> list_ex (\<lambda>p. MatchString p ''please read the file'') readPatterns"
proof -
  have a: "\<not> list_ex (\<lambda>p. MatchString p ''please read the file'') cmdPatterns"
    by (simp add: cmdPatterns_def match_eval)
  have b: "list_ex (\<lambda>p. MatchString p ''please read the file'') readPatterns"
    by (simp add: readPatterns_def match_eval)
  show ?thesis
    using ParseUserIntent_Action_last_group_wins[of lower_ascii_only "[''Please READ'', ''the file'']"]
      a b
    by (simp only: lowered2 if_True if_False simp_thms)
qed

text \<open>
  Claim C9 as stated fails: on the messages \<open>Create a file\<close> and \<open>and run the command\<close>
  the first pattern in the order create, read, run that matches is the create-file pattern
  \<open>create.*?file\<close>, and the action is \<open>run_command\<close>.
\<close>

theorem ParseUserIntent_Action_first_match_counterexample:
  "ToLower lower_ascii_only (Join [''Create a file'', ''and run the command''] '' '')
     = ''create a file and run the command''
   \<and> \<not> MatchString (createPatterns ! 0) ''create a file and run the command''
   \<and> MatchString (createPatterns ! 1) ''create a file and run the command''
   \<and> ParseUserIntent_Action lower_ascii_only [''Create a file'', ''and run the command'']
       = ''run_command''
   \<and> ParseUserIntent_Action lower_ascii_only [''Create a file'', ''and run the command'']
       \<noteq> ''create_file''"
proof -
  have a: "\<not> MatchString (createPatterns ! 0) ''create a file and run the command''"
    by (simp add: createPatterns_def match_eval)
  have b: "MatchString (createPatterns ! 1) ''create a file and run the command''"
    by (simp add: createPatterns_def match_eval)
  have c: "MatchString (cmdPatterns ! 1) ''create a file and run the command''"
    by (simp add: cmdPatterns_def match_eval)
  have d: "ParseUserIntent_Action lower_ascii_only [''Create a file'', ''and run the command'']
       = ''run_command''"
    using c
    by (simp add: ParseUserIntent_Action_def scan_patterns_eq lowered1 cmdPatterns_def
        del: Join.simps)
  from a b d lowered1 show ?thesis by simp
qed

text \<open>
  Claim C8. \<open>DetectRefusal\<close> is a function of the text alone. Let the case table agree with
  \<open>unicode.ToLower\<close> on ASCII, leave U+FFFD as it is, and leave the runes of the phrases
  outside ASCII as they are (they are Han characters, which have no case). Then a text is
  classified as a refusal exactly when its lowered form contains one of the sixteen phrases,
  lowered; a text that contains one of the phrases as it is written is classified; a text
  that contains a classified text is classified; and two texts that differ only in the case of
  ASCII letters are classified alike.
\<close>

theorem DetectRefusal_monotone:
  assumes "\<forall>r<0x80. lower r = lower_ascii_only r"
    and "lower RuneError = RuneError"
    and "\<forall>p\<in>set refusalPatterns. \<forall>q\<in>set (runes p). 0x80 \<le> q \<longrightarrow> lower q = q"
  shows "(DetectRefusal lower T
            \<longleftrightarrow> (\<exists>p\<in>set refusalPatterns. sublist (map ascii_lower p) (ToLower lower T)))
         \<and> ((\<exists>p\<in>set refusalPatterns. sublist p T) \<longrightarrow> DetectRefusal lower T)
         \<and> (sublist T T' \<and> DetectRefusal lower T \<longrightarrow> DetectRefusal lower T')
         \<and> (map ascii_lower T = map ascii_lower T'
              \<longrightarrow> DetectRefusal lower T = DetectRefusal lower T')"
proof -
  note low = pattern_lowered(1)[OF assms(1) assms(3)]
  note clean = pattern_lowered(2)[OF assms(1) assms(3)]
  have iff: "DetectRefusal lower t
      \<longleftrightarrow> (\<exists>p\<in>set refusalPatterns. sublist (ToLower lower p) (ToLower lower t))" for t
    by (simp add: DetectRefusal_iff list_ex_iff Contains_sublist)
  have mono: "DetectRefusal lower t'" if s: "sublist t t'" and d: "DetectRefusal lower t" for t t'
  proof -
    from d iff obtain p where p: "p \<in> set refusalPatterns"
      and c: "sublist (Map lower p) (Map lower t)"
      by (auto simp: ToLower_Map[OF assms(1)])
    from assms(2) have err: "EncodeRune (lower RuneError) = EncodeRune RuneError" by simp
    from Map_mono[OF err clean[OF p] s c] p iff[of t'] show ?thesis
      by (auto simp: ToLower_Map[OF assms(1)])
  qed
  have self: "DetectRefusal lower p" if "p \<in> set refusalPatterns" for p
    using that iff[of p] by auto
  have 1: "DetectRefusal lower T
            \<longleftrightarrow> (\<exists>p\<in>set refusalPatterns. sublist (map ascii_lower p) (ToLower lower T))"
    using iff[of T] low by auto
  have 2: "(\<exists>p\<in>set refusalPatterns. sublist p T) \<longrightarrow> DetectRefusal lower T"
    using mono self by blast
  have 3: "sublist T T' \<and> DetectRefusal lower T \<longrightarrow> DetectRefusal lower T'"
    using mono by blast
  have 4: "map ascii_lower T = map ascii_lower T'
              \<longrightarrow> DetectRefusal lower T = DetectRefusal lower T'"
    using DetectRefusal_case[OF assms(1)] by blast
  from 1 2 3 4 show ?thesis by blast
qed

theorem DetectRefusal_monotone_witness:
  "sublist (''I CAN'' @ [CHR 0x27] @ ''T'') (''Sorry, I CAN'' @ [CHR 0x27] @ ''T do it'')
   \<and> map ascii_lower (''I CAN'' @ [CHR 0x27] @ ''T'') = map ascii_lower (''i can'' @ [CHR 0x27] @ ''t'')
   \<and> DetectRefusal lower_ascii_only (''i can'' @ [CHR 0x27] @ ''t'')
   \<and> DetectRefusal lower_ascii_only (''I CAN'' @ [CHR 0x27] @ ''T'')
   \<and> DetectRefusal lower_ascii_only (''Sorry, I CAN'' @ [CHR 0x27] @ ''T do it'')
   \<and> DetectRefusal lower_ascii_only
        (''No: '' @ [CHR 0xE6, CHR 0x88, CHR 0x91, CHR 0xE4, CHR 0xB8, CHR 0x8D, CHR 0xE8, CHR 0x83, CHR 0xBD] @ ''!'')"
proof -
  have h1: "\<forall>r<0x80. lower_ascii_only r = lower_ascii_only r" by simp
  have h2: "lower_ascii_only RuneError = RuneError"
    by (simp add: lower_ascii_only_def RuneError_def)
  have h3: "\<forall>p\<in>set refusalPatterns. \<forall>q\<in>set (runes p). 0x80 \<le> q \<longrightarrow> lower_ascii_only q = q"
    by (simp add: lower_ascii_only_def)
  note inst = DetectRefusal_monotone[OF h1 h2 h3]
  have s: "sublist (''I CAN'' @ [CHR 0x27] @ ''T'') (''Sorry, I CAN'' @ [CHR 0x27] @ ''T do it'')"
    by (simp add: Contains_sublist[symmetric] HasPrefix_eval)
  have m: "map ascii_lower (''I CAN'' @ [CHR 0x27] @ ''T'') = map ascii_lower (''i can'' @ [CHR 0x27] @ ''t'')"
    by (simp add: ascii_lower_def byte_def char_of_def bit_Suc_0_iff)
  have p1: "''I can'' @ [CHR 0x27] @ ''t'' \<in> set refusalPatterns"
    by (simp add: refusalPatterns_def)
  have s1: "sublist (''I can'' @ [CHR 0x27] @ ''t'') (''I can'' @ [CHR 0x27] @ ''t'')"
    by simp
  have p2: "[CHR 0xE6, CHR 0x88, CHR 0x91, CHR 0xE4, CHR 0xB8, CHR 0x8D, CHR 0xE8, CHR 0x83, CHR 0xBD]
      \<in> set refusalPatterns"
    by (simp add: refusalPatterns_def)
  have s2: "sublist [CHR 0xE6, CHR 0x88, CHR 0x91, CHR 0xE4, CHR 0xB8, CHR 0x8D, CHR 0xE8, CHR 0x83, CHR 0xBD]
      (''No: '' @ [CHR 0xE6, CHR 0x88, CHR 0x91, CHR 0xE4, CHR 0xB8, CHR 0x8D, CHR 0xE8, CHR 0x83, CHR 0xBD] @ ''!'')"
    by (simp add: Contains_sublist[symmetric] HasPrefix_eval)
  have d0: "DetectRefusal lower_ascii_only (''I can'' @ [CHR 0x27] @ ''t'')"
    using inst[of "''I can'' @ [CHR 0x27] @ ''t''" "[]"] p1 s1 by blast
  have m0: "map ascii_lower (''I can'' @ [CHR 0x27] @ ''t'') = map ascii_lower (''i can'' @ [CHR 0x27] @ ''t'')"
    by (simp add: ascii_lower_def byte_def char_of_def bit_Suc_0_iff)
  have d1: "DetectRefusal lower_ascii_only (''i can'' @ [CHR 0x27] @ ''t'')"
    using inst[of "''I can'' @ [CHR 0x27] @ ''t''" "''i can'' @ [CHR 0x27] @ ''t''"] d0 m0 by blast
  have d2: "DetectRefusal lower_ascii_only (''I CAN'' @ [CHR 0x27] @ ''T'')"
    using inst[of "''I CAN'' @ [CHR 0x27] @ ''T''" "''i can'' @ [CHR 0x27] @ ''t''"] d1 m by blast
  have d3: "DetectRefusal lower_ascii_only (''Sorry, I CAN'' @ [CHR 0x27] @ ''T do it'')"
    using inst[of "''I CAN'' @ [CHR 0x27] @ ''T''" "''Sorry, I CAN'' @ [CHR 0x27] @ ''T do it''"] s d2
    by blast
  have d4: "DetectRefusal lower_ascii_only
        (''No: '' @ [CHR 0xE6, CHR 0x88, CHR 0x91, CHR 0xE4, CHR 0xB8, CHR 0x8D, CHR 0xE8, CHR 0x83, CHR 0xBD] @ ''!'')"
    using inst[of "''No: '' @ [CHR 0xE6, CHR 0x88, CHR 0x91, CHR 0xE4, CHR 0xB8, CHR 0x8D, CHR 0xE8, CHR 0x83, CHR 0xBD] @ ''!''" "[]"]
      p2 s2 by blast
  from s m d1 d2 d3 d4 show ?thesis by blast
qed

end
